theory Spec2Isabelle
  imports Main "HOL-Library.Sublist" "HOL-Library.AList"
begin

section \<open>Python string operations used by the scripts\<close>

text \<open>
  A Python \<open>str\<close> is modelled as a \<open>string\<close>; one \<open>char\<close> stands for one code point
  below 256. All markers the scripts search for are ASCII.
\<close>

text \<open>\<open>old in s\<close>: \<open>old\<close> occurs in \<open>s\<close> as a contiguous substring.\<close>

fun is_in :: "string \<Rightarrow> string \<Rightarrow> bool" where
  "is_in sub [] = (sub = [])"
| "is_in sub (c # cs) = (prefix sub (c # cs) \<or> is_in sub cs)"

text \<open>\<open>s.startswith(p)\<close>.\<close>

definition startswith :: "string \<Rightarrow> string \<Rightarrow> bool" where
  "startswith s p = prefix p s"

text \<open>
  \<open>s.replace(old, new)\<close>: every non-overlapping occurrence of \<open>old\<close>, found from left to
  right, is replaced; an empty \<open>old\<close> inserts \<open>new\<close> around every character.
\<close>

fun replace_empty :: "string \<Rightarrow> string \<Rightarrow> string" where
  "replace_empty new [] = new"
| "replace_empty new (c # cs) = new @ c # replace_empty new cs"

function replace :: "string \<Rightarrow> string \<Rightarrow> string \<Rightarrow> string" where
  "replace s old new =
     (if old = [] then replace_empty new s
      else if prefix old s then new @ replace (drop (length old) s) old new
      else (case s of [] \<Rightarrow> [] | c # cs \<Rightarrow> c # replace cs old new))"
  by pat_completeness auto
termination
  by (relation "measure (\<lambda>(s, old, new). length s)") (auto simp: prefix_def)

declare replace.simps [simp del]

text \<open>\<open>c.isspace()\<close> for the code points below 256.\<close>

definition is_space :: "char \<Rightarrow> bool" where
  "is_space c = (c \<in> set [CHR 0x09, CHR 0x0A, CHR 0x0B, CHR 0x0C, CHR 0x0D,
                           CHR 0x1C, CHR 0x1D, CHR 0x1E, CHR 0x1F, CHR 0x20,
                           CHR 0x85, CHR 0xA0])"

text \<open>\<open>c.isdigit()\<close> restricted to the decimal digits \<open>\d\<close> and \<open>int\<close> accept below 256.\<close>

definition is_digit :: "char \<Rightarrow> bool" where
  "is_digit c = (c \<in> set ''0123456789'')"

text \<open>\<open>s.lstrip()\<close> and \<open>s.rstrip('\n')\<close>.\<close>

definition lstrip :: "string \<Rightarrow> string" where
  "lstrip s = dropWhile is_space s"

definition rstrip_nl :: "string \<Rightarrow> string" where
  "rstrip_nl s = rev (dropWhile (\<lambda>c. c = CHR 0x0A) (rev s))"

text \<open>\<open>s.count(c)\<close> for a one-character \<open>c\<close>, and \<open>s.split(c)\<close>.\<close>

definition count_chr :: "string \<Rightarrow> char \<Rightarrow> nat" where
  "count_chr s c = length (filter (\<lambda>x. x = c) s)"

fun split_chr :: "string \<Rightarrow> char \<Rightarrow> string list" where
  "split_chr [] c = [[]]"
| "split_chr (x # xs) c =
     (if x = c then [] # split_chr xs c
      else (case split_chr xs c of [] \<Rightarrow> [[x]] | w # ws \<Rightarrow> (x # w) # ws))"

text \<open>
  \<open>s.split()\<close>: the maximal runs of non-whitespace characters, found by one scan;
  \<open>cur\<close> is the run being read, last character first.
\<close>

fun split_from :: "string \<Rightarrow> string \<Rightarrow> string list" where
  "split_from cur [] = (if cur = [] then [] else [rev cur])"
| "split_from cur (x # xs) =
     (if is_space x then (if cur = [] then split_from [] xs else rev cur # split_from [] xs)
      else split_from (x # cur) xs)"

definition split_ws :: "string \<Rightarrow> string list" where
  "split_ws s = split_from [] s"

text \<open>
  \<open>s.splitlines()\<close>: lines end at \<open>\n\<close>, \<open>\r\<close>, \<open>\r\n\<close>, \<open>\v\<close>, \<open>\f\<close>, \<open>\x1c\<close>, \<open>\x1d\<close>,
  \<open>\x1e\<close> and \<open>\x85\<close>; the terminators are dropped and a terminator at the very end
  opens no further line.
\<close>

definition is_linebreak :: "char \<Rightarrow> bool" where
  "is_linebreak c = (c \<in> set [CHR 0x0A, CHR 0x0B, CHR 0x0C, CHR 0x0D,
                               CHR 0x1C, CHR 0x1D, CHR 0x1E, CHR 0x85])"

fun splitlines_from :: "string \<Rightarrow> string \<Rightarrow> string list" where
  "splitlines_from cur [] = (if cur = [] then [] else [rev cur])"
| "splitlines_from cur (x # xs) =
     (if x = CHR 0x0D then
        (case xs of
           y # ys \<Rightarrow> if y = CHR 0x0A then rev cur # splitlines_from [] ys
                     else rev cur # splitlines_from [] xs
         | [] \<Rightarrow> [rev cur])
      else if is_linebreak x then rev cur # splitlines_from [] xs
      else splitlines_from (x # cur) xs)"

definition splitlines :: "string \<Rightarrow> string list" where
  "splitlines s = splitlines_from [] s"

text \<open>\<open>s.lower()\<close> on the code points below 256 (ASCII and Latin-1 capitals).\<close>

definition lower_chr :: "char \<Rightarrow> char" where
  "lower_chr c =
     (let n = of_char c :: nat
      in if (65 \<le> n \<and> n \<le> 90) \<or> (192 \<le> n \<and> n \<le> 222 \<and> n \<noteq> 215)
         then char_of (n + 32) else c)"

definition lower :: "string \<Rightarrow> string" where
  "lower s = map lower_chr s"

text \<open>
  \<open>int(s)\<close> on a string: whitespace at both ends is dropped, one sign is allowed, and
  the rest must be decimal digits, where single underscores may stand between two digits.
  The whitespace \<open>int\<close> drops is \<open>\t\<close>, \<open>\n\<close>, \<open>\v\<close>, \<open>\f\<close>, \<open>\r\<close> and the blank, and of
  the code points from 128 on those that are whitespace, \<open>\x85\<close> and \<open>\xa0\<close>, which it maps
  to a blank first; \<open>\x1c\<close> to \<open>\x1f\<close>, whitespace for \<open>isspace\<close>, are not dropped. \<open>None\<close>
  stands for \<open>ValueError\<close>. The bound that interpreters from 3.11 on put on the number
  of digits is left out.
\<close>

definition is_int_space :: "char \<Rightarrow> bool" where
  "is_int_space c = (c \<in> set [CHR 0x09, CHR 0x0A, CHR 0x0B, CHR 0x0C, CHR 0x0D, CHR 0x20,
                               CHR 0x85, CHR 0xA0])"

definition strip_int :: "string \<Rightarrow> string" where
  "strip_int s = rev (dropWhile is_int_space (rev (dropWhile is_int_space s)))"

definition digit_val :: "char \<Rightarrow> nat" where
  "digit_val c = of_char c - 48"

fun digits_val :: "nat \<Rightarrow> string \<Rightarrow> nat option" where
  "digits_val acc [] = Some acc"
| "digits_val acc (c # cs) =
     (if is_digit c then digits_val (10 * acc + digit_val c) cs
      else if c = CHR ''_'' then
        (case cs of
           d # ds \<Rightarrow> if is_digit d then digits_val acc cs else None
         | [] \<Rightarrow> None)
      else None)"

definition unsigned_val :: "string \<Rightarrow> nat option" where
  "unsigned_val s =
     (case s of [] \<Rightarrow> None | c # cs \<Rightarrow> if is_digit c then digits_val 0 s else None)"

definition py_int :: "string \<Rightarrow> int option" where
  "py_int s =
     (case strip_int s of
        [] \<Rightarrow> None
      | c # cs \<Rightarrow>
          if c = CHR ''-'' then map_option (\<lambda>n. - int n) (unsigned_val cs)
          else if c = CHR ''+'' then map_option int (unsigned_val cs)
          else map_option int (unsigned_val (c # cs)))"

text \<open>\<open>str(n)\<close> for an integer: its decimal digits, with a minus sign when negative.\<close>

fun str_nat :: "nat \<Rightarrow> string" where
  "str_nat n = (if n < 10 then [char_of (48 + n)] else str_nat (n div 10) @ [char_of (48 + n mod 10)])"

declare str_nat.simps [simp del]

definition py_str :: "int \<Rightarrow> string" where
  "py_str i = (if i < 0 then CHR ''-'' # str_nat (nat (- i)) else str_nat (nat i))"

text \<open>\<open>xs[i]\<close>: a negative index counts from the end, anything out of range raises.\<close>

definition py_index :: "'a list \<Rightarrow> int \<Rightarrow> 'a option" where
  "py_index xs i =
     (if 0 \<le> i then (if nat i < length xs then Some (xs ! nat i) else None)
      else (if nat (- i) \<le> length xs then Some (xs ! (length xs - nat (- i))) else None))"

section \<open>Interface-name normalization (get-snmp-mac.py, get-snmp-arp.py)\<close>

text \<open>
  \<open>re.match('^D/\d+$', s)\<close> for a fixed first digit \<open>D\<close>: the digit, a slash, at least
  one decimal digit, and then the end of the string or one final newline.
\<close>

definition match_slot :: "char \<Rightarrow> string \<Rightarrow> bool" where
  "match_slot d s =
     (case s of
        c # s' \<Rightarrow>
          (case s' of
             sl # rest \<Rightarrow>
               c = d \<and> sl = CHR ''/'' \<and> takeWhile is_digit rest \<noteq> [] \<and>
               (dropWhile is_digit rest = [] \<or> dropWhile is_digit rest = [CHR 0x0A])
           | [] \<Rightarrow> False)
      | [] \<Rightarrow> False)"

text \<open>The Cisco long names, the Cisco 31000 name and the Ubiquiti schemes.\<close>

definition cisco_names :: "string \<Rightarrow> string" where
  "cisco_names ifName =
     (let ifName = replace ifName ''TenGigabitEthernet'' ''Te'';
          ifName = replace ifName ''GigabitEthernet'' ''Gi'';
          ifName = replace ifName ''FastEthernet'' ''Fa'';
          ifName = replace ifName ''Ethernet'' ''Et'';
          ifName = replace ifName ''Management'' ''Ma'';
          ifName = replace ifName ''Port-channel'' ''Po'';
          ifName = replace ifName ''port-channel'' ''Po'';
          ifName = replace ifName ''switch'' ''Et''
      in ifName)"

definition ubiquiti_names :: "string \<Rightarrow> string" where
  "ubiquiti_names ifName =
     (let ifName = (if match_slot CHR ''0'' ifName then ''Et'' @ ifName else ifName);
          ifName = (if match_slot CHR ''3'' ifName then replace ifName ''3/'' ''Po'' else ifName)
      in ifName)"

definition vlan_names :: "string \<Rightarrow> string" where
  "vlan_names ifName =
     (if startswith (lower ifName) ''vl'' then
        (let ifName = replace ifName ''Vlan'' '''';
             ifName = replace ifName ''Vl'' '''';
             ifName = replace ifName ''VLAN- '' ''''
         in ifName)
      else if startswith (lower ifName) ''br-vlan'' then replace ifName ''br-vlan'' ''''
      else ifName)"

text \<open>\<open>short_ifName\<close> of get-snmp-mac.py.\<close>

definition short_ifName :: "string \<Rightarrow> string" where
  "short_ifName ifName = vlan_names (ubiquiti_names (cisco_names ifName))"

text \<open>
  get-snmp-arp.py: the same steps, then names starting with an entry of the module's
  set \<open>ignore_ifNames\<close> become empty.
\<close>

definition ignore_ifNames :: "string list" where
  "ignore_ifNames = [''bme0'', ''Juniper'', ''jsrv'', ''lo0'']"

definition ignore_ifName :: "string \<Rightarrow> bool" where
  "ignore_ifName ifName = list_ex (\<lambda>ignore. startswith ifName ignore) ignore_ifNames"

definition short_ifName_arp :: "string \<Rightarrow> string" where
  "short_ifName_arp ifName =
     (let ifName = vlan_names (ubiquiti_names (cisco_names ifName))
      in if ignore_ifName ifName then [] else ifName)"

text \<open>
  The long names \<open>short_ifName\<close> replaces, the VLAN prefixes it removes, and the names
  it leaves as they are: a settled name holds no long name, is no Ubiquiti slot name
  (\<open>0/\<close> or \<open>3/\<close> and digits), and holds no VLAN prefix that the branch it takes would
  remove.
\<close>

definition long_names :: "string list" where
  "long_names = [''TenGigabitEthernet'', ''GigabitEthernet'', ''FastEthernet'', ''Ethernet'',
                 ''Management'', ''Port-channel'', ''port-channel'', ''switch'']"

definition vlan_prefixes :: "string list" where
  "vlan_prefixes = [''Vlan'', ''Vl'', ''VLAN- '']"

definition settled :: "string \<Rightarrow> bool" where
  "settled s =
     (list_all (\<lambda>old. \<not> is_in old s) long_names \<and>
      \<not> match_slot CHR ''0'' s \<and> \<not> match_slot CHR ''3'' s \<and>
      (if startswith (lower s) ''vl'' then list_all (\<lambda>old. \<not> is_in old s) vlan_prefixes
       else if startswith (lower s) ''br-vlan'' then \<not> is_in ''br-vlan'' s
       else True))"

text \<open>A chain of replacements, applied one after the other as the steps do.\<close>

definition replace_each :: "(string \<times> string) list \<Rightarrow> string \<Rightarrow> string" where
  "replace_each rules s = fold (\<lambda>rule s. replace s (fst rule) (snd rule)) rules s"

text \<open>
  The short names that stand for the long names, in the order of \<open>long_names\<close>, and the
  characters of a port suffix such as \<open>1/0/24\<close>, \<open>0/1.100\<close> or \<open>1/1:2\<close>.
\<close>

definition short_names :: "string list" where
  "short_names = [''Te'', ''Gi'', ''Fa'', ''Et'', ''Ma'', ''Po'', ''Po'', ''Et'']"

definition port_chr :: "char \<Rightarrow> bool" where
  "port_chr c = (c \<in> set ''0123456789/.:'')"

section \<open>Credential store (pwdecrypt.py, SSH_pwdecrypt.py)\<close>

datatype error =
    InvalidToken | UnicodeDecodeError | KeyError | ValueError | IndexError | UnboundLocalError

text \<open>
  \<open>decrypt_password\<close> hands its argument to \<open>Fernet(CRYPTKEY).decrypt\<close> of the
  \<open>cryptography\<close> package and decodes the result; the package is no part of the
  repository. The functions below take \<open>decrypt_password\<close> as their parameter \<open>dec\<close>:
  a token yields its plaintext or raises.
\<close>

type_synonym decrypt = "string \<Rightarrow> error + string"

text \<open>The dictionary \<open>realm_data\<close>, and \<open>realms\<close> in insertion order.\<close>

record realm_data =
  username :: string
  password :: string
  secret :: string

type_synonym realms = "(string \<times> realm_data) list"

definition nl :: string where
  "nl = [CHR 0x0A]"

text \<open>A line that is neither blank nor a comment, after \<open>lstrip\<close> and \<open>rstrip('\n')\<close>.\<close>

definition clean :: "string \<Rightarrow> string" where
  "clean line = rstrip_nl (lstrip line)"

definition is_entry :: "string \<Rightarrow> bool" where
  "is_entry curline = (length curline > 0 \<and> \<not> startswith curline ''#'')"

text \<open>\<open>read_credentials\<close>, the loop over the lines of the realm file.\<close>

fun read_realms :: "decrypt \<Rightarrow> string list \<Rightarrow> realms \<Rightarrow> error + realms" where
  "read_realms dec [] realms = Inr realms"
| "read_realms dec (line # lines) realms =
     (if is_entry (clean line) \<and> count_chr (clean line) CHR '';'' = 3 then
        (case split_chr (clean line) CHR '';'' of
           [myrealm, uname, pw, sec] \<Rightarrow>
             (case dec pw of
                Inl e \<Rightarrow> Inl e
              | Inr pw \<Rightarrow>
                  (case (if sec = ''*'' then Inr pw else dec sec) of
                     Inl e \<Rightarrow> Inl e
                   | Inr sec \<Rightarrow>
                       if uname = [] \<or> pw = [] \<or> sec = []
                       then read_realms dec lines realms
                       else read_realms dec lines
                              (AList.update myrealm
                                 \<lparr>username = uname, password = pw, secret = sec\<rparr>
                                 realms)))
         | _ \<Rightarrow> Inl ValueError)
      else read_realms dec lines realms)"

text \<open>
  \<open>read_credentials\<close>: the file is given by its lines as \<open>readlines\<close> returns them, or
  \<open>None\<close> when it cannot be opened. The result \<open>None\<close> is Python's \<open>None\<close>.
\<close>

definition read_credentials :: "decrypt \<Rightarrow> string list option \<Rightarrow> error + realms option" where
  "read_credentials dec file =
     (case file of
        None \<Rightarrow> Inr None
      | Some lines \<Rightarrow>
          (case read_realms dec lines [] of
             Inl e \<Rightarrow> Inl e
           | Inr realms \<Rightarrow> if realms = [] then Inr None else Inr (Some realms)))"

text \<open>
  The two files differ in the lookup of a realm reference: pwdecrypt.py indexes the
  dictionary, SSH\_pwdecrypt.py tests \<open>in realms\<close> first and warns.
\<close>

datatype variant = Pwdecrypt | SSH_pwdecrypt

definition realm_field ::
    "variant \<Rightarrow> realms \<Rightarrow> string \<Rightarrow> (realm_data \<Rightarrow> string) \<Rightarrow> error + string" where
  "realm_field v realms ref field =
     (case map_of realms ref of
        Some my_realm \<Rightarrow> Inr (field my_realm)
      | None \<Rightarrow> (case v of Pwdecrypt \<Rightarrow> Inl KeyError | SSH_pwdecrypt \<Rightarrow> Inr []))"

text \<open>The user name: a realm reference or the name itself.\<close>

definition resolve_username :: "variant \<Rightarrow> realms \<Rightarrow> string \<Rightarrow> error + string" where
  "resolve_username v realms uname =
     (if length uname > 0 \<and> startswith uname ''*'' then realm_field v realms uname username
      else Inr uname)"

text \<open>
  The password and the enable secret: a realm reference, an encrypted literal or empty.
  The second component lists the tokens handed to \<open>decrypt_password\<close>.
\<close>

definition resolve_secret ::
    "variant \<Rightarrow> decrypt \<Rightarrow> realms \<Rightarrow> (realm_data \<Rightarrow> string) \<Rightarrow> string
       \<Rightarrow> (error + string) \<times> string list" where
  "resolve_secret v dec realms field s =
     (if length s > 0 \<and> startswith s ''*'' then (realm_field v realms s field, [])
      else if length s > 0 then (dec s, [s])
      else (Inr s, []))"

text \<open>The dictionary \<open>device_credentials\<close>.\<close>

record device_credentials = realm_data +
  ip :: string
  global_delay_factor :: int
  device_type :: string

text \<open>One syntactically valid line, up to the comparison with the requested device.\<close>

record device_line =
  curdevice :: string
  creds :: device_credentials
  port :: int

definition resolve_fields ::
    "variant \<Rightarrow> decrypt \<Rightarrow> realms \<Rightarrow> string \<Rightarrow> string \<Rightarrow> string \<Rightarrow> string \<Rightarrow> string \<Rightarrow> string
       \<Rightarrow> int \<Rightarrow> (error + device_line) \<times> string list" where
  "resolve_fields v dec realms dev addr dtype uname pw sec ssh_port =
     (let addr = (if addr = [] then dev else addr)
      in case resolve_username v realms uname of
           Inl e \<Rightarrow> (Inl e, [])
         | Inr uname \<Rightarrow>
             (case resolve_secret v dec realms password pw of
                (Inl e, calls) \<Rightarrow> (Inl e, calls)
              | (Inr pw, calls) \<Rightarrow>
                  (case resolve_secret v dec realms secret sec of
                     (Inl e, calls') \<Rightarrow> (Inl e, calls @ calls')
                   | (Inr sec, calls') \<Rightarrow>
                       (Inr \<lparr>curdevice = dev,
                             creds = \<lparr>username = uname, password = pw, secret = sec,
                                       ip = addr, global_delay_factor = 3,
                                       device_type = dtype\<rparr>,
                             port = ssh_port\<rparr>,
                        calls @ calls'))))"

text \<open>
  The fields of the line are unpacked, six of them or seven with the port; \<open>int\<close> of the
  port comes before the secret fields.
\<close>

definition resolve_line ::
    "variant \<Rightarrow> decrypt \<Rightarrow> realms \<Rightarrow> string \<Rightarrow> (error + device_line) \<times> string list" where
  "resolve_line v dec realms curline =
     (case split_chr curline CHR '';'' of
        [dev, addr, dtype, uname, pw, sec] \<Rightarrow>
          resolve_fields v dec realms dev addr dtype uname pw sec 22
      | [dev, addr, dtype, uname, pw, sec, p] \<Rightarrow>
          (case py_int p of
             None \<Rightarrow> (Inl ValueError, [])
           | Some ssh_port \<Rightarrow> resolve_fields v dec realms dev addr dtype uname pw sec ssh_port)
      | _ \<Rightarrow> (Inl ValueError, []))"

text \<open>A line the loop does not skip.\<close>

definition valid_line :: "string \<Rightarrow> bool" where
  "valid_line curline =
     (is_entry curline \<and> (count_chr curline CHR '';'' = 5 \<or> count_chr curline CHR '';'' = 6))"

text \<open>What \<open>read_deviceinfo\<close> returns first: \<open>None\<close>, \<open>''\<close> or the dictionary.\<close>

datatype credentials = PyNone | Empty | Credentials device_credentials

text \<open>
  \<open>read_deviceinfo\<close>, the loop over the lines of the device file; \<open>ssh_port\<close> is the
  value the variable holds, \<open>calls\<close> the tokens handed to \<open>decrypt_password\<close> so far.
\<close>

fun scan_devices ::
    "variant \<Rightarrow> decrypt \<Rightarrow> realms \<Rightarrow> string \<Rightarrow> string list \<Rightarrow> int \<Rightarrow> string list
       \<Rightarrow> (error + credentials \<times> int) \<times> string list" where
  "scan_devices v dec realms device [] ssh_port calls = (Inr (PyNone, ssh_port), calls)"
| "scan_devices v dec realms device (line # lines) ssh_port calls =
     (if valid_line (clean line) then
        (case resolve_line v dec realms (clean line) of
           (Inl e, calls') \<Rightarrow> (Inl e, calls @ calls')
         | (Inr l, calls') \<Rightarrow>
             if curdevice l = device then
               (if username (creds l) = [] \<or> password (creds l) = [] \<or> secret (creds l) = []
                then (Inr (Empty, port l), calls @ calls')
                else (Inr (Credentials (creds l), port l), calls @ calls'))
             else scan_devices v dec realms device lines (port l) (calls @ calls'))
      else scan_devices v dec realms device lines ssh_port calls)"

definition read_deviceinfo ::
    "variant \<Rightarrow> decrypt \<Rightarrow> realms \<Rightarrow> string list option \<Rightarrow> string
       \<Rightarrow> (error + credentials \<times> int) \<times> string list" where
  "read_deviceinfo v dec realms file device =
     (case file of
        None \<Rightarrow> (Inr (PyNone, 22), [])
      | Some lines \<Rightarrow> scan_devices v dec realms device lines 22 [])"

text \<open>
  What \<open>get_credentials\<close> reads from outside: the environment variable, whether it names
  a directory, and the two files in it.
\<close>

record store =
  DO_DEVICE :: "string option"
  isdir :: bool
  credentials_txt :: "string list option"
  deviceinfo_txt :: "string list option"

text \<open>
  The early returns of \<open>get_credentials\<close> read the local \<open>ssh_port\<close>: pwdecrypt.py has
  not assigned it there, SSH\_pwdecrypt.py has set it to 22.
\<close>

definition no_credentials :: "variant \<Rightarrow> error + credentials \<times> int" where
  "no_credentials v = (case v of Pwdecrypt \<Rightarrow> Inl UnboundLocalError | SSH_pwdecrypt \<Rightarrow> Inr (PyNone, 22))"

definition get_credentials ::
    "variant \<Rightarrow> decrypt \<Rightarrow> store \<Rightarrow> string \<Rightarrow> error + credentials \<times> int" where
  "get_credentials v dec st device =
     (case DO_DEVICE st of
        None \<Rightarrow> no_credentials v
      | Some dir \<Rightarrow>
          if \<not> isdir st then no_credentials v
          else
            (case read_credentials dec (credentials_txt st) of
               Inl e \<Rightarrow> Inl e
             | Inr None \<Rightarrow> no_credentials v
             | Inr (Some realms) \<Rightarrow>
                 fst (read_deviceinfo v dec realms (deviceinfo_txt st) device)))"

text \<open>
  The device id of a line is its text before the first semicolon. The literal fields of a
  line are its password and enable-secret fields (the fifth and the sixth) that are neither
  empty nor a realm reference: the tokens \<open>read_deviceinfo\<close> has to decrypt.
\<close>

definition device_id :: "string \<Rightarrow> string" where
  "device_id curline = takeWhile (\<lambda>c. c \<noteq> CHR '';'') curline"

definition literal_fields :: "string \<Rightarrow> string list" where
  "literal_fields curline =
     filter (\<lambda>f. f \<noteq> [] \<and> \<not> startswith f ''*'') (take 2 (drop 4 (split_chr curline CHR '';'')))"

text \<open>
  A stand-in for \<open>decrypt_password\<close> to run the examples with: the token \<open>ENC\<close> is
  valid and holds \<open>pw\<close>, every other token fails the integrity check.
\<close>

definition sample_decrypt :: decrypt where
  "sample_decrypt tok = (if tok = ''ENC'' then Inr ''pw'' else Inl InvalidToken)"

section \<open>Console automation (do-oob-device.py)\<close>

text \<open>
  The channel is an interactive byte stream. What \<open>recv\<close> returns is modelled by what
  \<open>decode('utf-8')\<close> makes of it: the decoded text, or bytes that do not decode.
\<close>

datatype chunk = Text string | Undecodable

text \<open>
  One poll is \<open>if channel.recv_ready(): buffer = channel.recv(9999)\<close>. The device is a
  script that answers the polls in order: nothing to read, or a chunk.
\<close>

datatype poll = NotReady | Ready chunk

type_synonym device = "nat \<Rightarrow> poll"

text \<open>The channel: how many polls were made, and what was sent, in order.\<close>

record channel =
  clock :: nat
  sent :: "string list"

definition send :: "string \<Rightarrow> channel \<Rightarrow> channel" where
  "send s ch = ch\<lparr>sent := sent ch @ [s]\<rparr>"

definition recv :: "device \<Rightarrow> channel \<Rightarrow> poll \<times> channel" where
  "recv dev ch = (dev (clock ch), ch\<lparr>clock := Suc (clock ch)\<rparr>)"

text \<open>\<open>buffer.decode('utf-8')\<close>; \<open>None\<close> stands for \<open>UnicodeDecodeError\<close>.\<close>

fun decode :: "chunk \<Rightarrow> string option" where
  "decode (Text s) = Some s"
| "decode Undecodable = None"

text \<open>
  How a loop with a \<open>return\<close> in its body ends: by the \<open>return\<close>, or by running out, with
  the value of the accumulated variable.
\<close>

datatype exit = Return string | Continue string

text \<open>
  \<open>receive\<close>, the loop \<open>for i in range(3)\<close> that collects the banner; \<open>n\<close> counts the
  rounds still to run. Sleeping and printing are left out.
\<close>

fun banner_loop ::
    "device \<Rightarrow> string \<Rightarrow> nat \<Rightarrow> string \<Rightarrow> channel \<Rightarrow> (error + exit) \<times> channel" where
  "banner_loop dev pw 0 banner ch = (Inr (Continue banner), ch)"
| "banner_loop dev pw (Suc n) banner ch =
     (case recv dev ch of
        (NotReady, ch1) \<Rightarrow> banner_loop dev pw n banner ch1
      | (Ready bytes, ch1) \<Rightarrow>
          (case decode bytes of
             None \<Rightarrow> (Inl UnicodeDecodeError, ch1)
           | Some buffer \<Rightarrow>
               if is_in ''Connection'' buffer then (Inr (Return buffer), ch1)
               else if is_in ''assword:'' buffer then
                 (case recv dev (send (pw @ nl) ch1) of
                    (NotReady, ch2) \<Rightarrow> banner_loop dev pw n (banner @ buffer) ch2
                  | (Ready bytes', ch2) \<Rightarrow>
                      (case decode bytes' of
                         None \<Rightarrow> (Inl UnicodeDecodeError, ch2)
                       | Some buffer' \<Rightarrow>
                           banner_loop dev pw n (banner @ buffer @ buffer') ch2))
               else banner_loop dev pw n (banner @ buffer) ch1))"

text \<open>The text the retry loop puts in place of bytes that do not decode.\<close>

definition placeholder :: string where
  "placeholder = ''!!! error non-Unicode character in output''"

definition decode_or_placeholder :: "chunk \<Rightarrow> string" where
  "decode_or_placeholder bytes = (case decode bytes of Some s \<Rightarrow> s | None \<Rightarrow> placeholder)"

text \<open>The inner loop \<open>for i in range(3)\<close> of one retry.\<close>

fun retry_polls :: "device \<Rightarrow> nat \<Rightarrow> string \<Rightarrow> channel \<Rightarrow> exit \<times> channel" where
  "retry_polls dev 0 output ch = (Continue output, ch)"
| "retry_polls dev (Suc n) output ch =
     (case recv dev ch of
        (p, ch1) \<Rightarrow>
          (let output =
                 (case p of
                    NotReady \<Rightarrow> output
                  | Ready bytes \<Rightarrow>
                      (let buffer = decode_or_placeholder bytes
                       in if output = [] then buffer else output @ buffer))
           in if is_in ''ogin:'' output then (Return output, ch1)
              else retry_polls dev n output ch1))"

text \<open>The loop \<open>while tries < 6 and output == ''\<close>.\<close>

function retry_loop :: "device \<Rightarrow> nat \<Rightarrow> string \<Rightarrow> channel \<Rightarrow> string \<times> channel" where
  "retry_loop dev tries output ch =
     (if tries < 6 \<and> output = [] then
        (case retry_polls dev 3 output (send nl ch) of
           (Return output', ch') \<Rightarrow> (output', ch')
         | (Continue output', ch') \<Rightarrow> retry_loop dev (tries + 1) output' ch')
      else (output, ch))"
  by pat_completeness auto
termination
  by (relation "measure (\<lambda>(dev, tries, output, ch). 6 - tries)") auto

declare retry_loop.simps [simp del]

definition receive ::
    "device \<Rightarrow> channel \<Rightarrow> string \<Rightarrow> string \<Rightarrow> (error + string) \<times> channel" where
  "receive dev ch command pw =
     (case banner_loop dev pw 3 [] (send (command @ nl) ch) of
        (Inl e, ch1) \<Rightarrow> (Inl e, ch1)
      | (Inr (Return buffer), ch1) \<Rightarrow> (Inr buffer, ch1)
      | (Inr (Continue banner), ch1) \<Rightarrow>
          if banner = [] then (Inr [], ch1)
          else (case retry_loop dev 0 [] ch1 of (output, ch2) \<Rightarrow> (Inr output, ch2)))"

text \<open>\<open>connect\<close>: the loop \<open>for i in range(2)\<close> that reads the answer to \<open>disco 1\<close>.\<close>

fun prompt_loop ::
    "device \<Rightarrow> nat \<Rightarrow> string \<Rightarrow> channel \<Rightarrow> (error + string) \<times> channel" where
  "prompt_loop dev 0 prompt ch = (Inr prompt, ch)"
| "prompt_loop dev (Suc n) prompt ch =
     (case recv dev ch of
        (NotReady, ch1) \<Rightarrow> prompt_loop dev n prompt ch1
      | (Ready bytes, ch1) \<Rightarrow>
          (case decode bytes of
             None \<Rightarrow> (Inl UnicodeDecodeError, ch1)
           | Some buffer \<Rightarrow> prompt_loop dev n (prompt @ buffer) ch1))"

text \<open>The disconnect: \<open>Ctrl-^ x\<close>, then \<open>disco 1\<close>, confirmed when asked.\<close>

definition escape :: string where
  "escape = [CHR 0x1E, CHR ''x'']"

definition disconnect :: "device \<Rightarrow> channel \<Rightarrow> (error + unit) \<times> channel" where
  "disconnect dev ch =
     (case prompt_loop dev 2 [] (send (''disco 1'' @ nl) (send escape ch)) of
        (Inl e, ch1) \<Rightarrow> (Inl e, ch1)
      | (Inr prompt, ch1) \<Rightarrow>
          if is_in ''[confirm]'' prompt then
            (case recv dev (send nl ch1) of
               (NotReady, ch2) \<Rightarrow> (Inr (), ch2)
             | (Ready bytes, ch2) \<Rightarrow>
                 (case decode bytes of
                    None \<Rightarrow> (Inl UnicodeDecodeError, ch2)
                  | Some buffer \<Rightarrow> (Inr (), ch2)))
          else (Inr (), ch1))"

text \<open>
  \<open>connect\<close> opens a channel of its own; \<open>dev\<close> scripts the console line behind it.
  The SSH connection itself is taken as established.
\<close>

definition connect ::
    "device \<Rightarrow> string \<Rightarrow> string \<Rightarrow> string \<Rightarrow> string \<Rightarrow> (error + string) \<times> channel" where
  "connect dev hostname uname pw line =
     (case receive dev \<lparr>clock = 0, sent = []\<rparr> (''ssh -p '' @ line @ '' '' @ hostname) pw of
        (Inl e, ch) \<Rightarrow> (Inl e, ch)
      | (Inr output, ch) \<Rightarrow>
          if output = [] then (Inr output, ch)
          else if \<not> is_in ''Connection'' output then
            (case disconnect dev ch of
               (Inl e, ch') \<Rightarrow> (Inl e, ch')
             | (Inr u, ch') \<Rightarrow> (Inr output, ch'))
          else (Inr output, ch))"

text \<open>
  The rounds of the banner loop that do not end it, told by what the device answers: no
  chunk; a chunk of text without \<open>Connection\<close> and without a password prompt; or a chunk
  with a password prompt, where one more poll follows the password and finds nothing or
  further text.
\<close>

datatype round = Silent | Heard string | Prompted string "string option"

fun round_ok :: "round \<Rightarrow> bool" where
  "round_ok Silent = True"
| "round_ok (Heard t) = (\<not> is_in ''Connection'' t \<and> \<not> is_in ''assword:'' t)"
| "round_ok (Prompted t u) = (\<not> is_in ''Connection'' t \<and> is_in ''assword:'' t)"

fun round_polls :: "round \<Rightarrow> poll list" where
  "round_polls Silent = [NotReady]"
| "round_polls (Heard t) = [Ready (Text t)]"
| "round_polls (Prompted t None) = [Ready (Text t), NotReady]"
| "round_polls (Prompted t (Some u)) = [Ready (Text t), Ready (Text u)]"

fun round_text :: "round \<Rightarrow> string" where
  "round_text Silent = []"
| "round_text (Heard t) = t"
| "round_text (Prompted t None) = t"
| "round_text (Prompted t (Some u)) = t @ u"

fun round_sent :: "string \<Rightarrow> round \<Rightarrow> string list" where
  "round_sent pw (Prompted t u) = [pw @ nl]"
| "round_sent pw r = []"

text \<open>The device answers the polls from number \<open>c\<close> on as the list says.\<close>

fun answers :: "device \<Rightarrow> nat \<Rightarrow> poll list \<Rightarrow> bool" where
  "answers dev c [] = True"
| "answers dev c (p # ps) = (dev c = p \<and> answers dev (Suc c) ps)"

text \<open>
  The text a poll adds to the output of the retry loop, and the text the polls number
  \<open>c\<close> up to \<open>c' - 1\<close> add in this order: the concatenation of the chunks received.
\<close>

definition poll_text :: "poll \<Rightarrow> string" where
  "poll_text p = (case p of NotReady \<Rightarrow> [] | Ready bytes \<Rightarrow> decode_or_placeholder bytes)"

definition heard :: "device \<Rightarrow> nat \<Rightarrow> nat \<Rightarrow> string" where
  "heard dev c c' = concat (map (\<lambda>k. poll_text (dev k)) [c..<c'])"

fun exit_text :: "exit \<Rightarrow> string" where
  "exit_text (Return s) = s"
| "exit_text (Continue s) = s"

text \<open>A device given by the answers to its first polls; later polls find nothing.\<close>

fun script :: "poll list \<Rightarrow> device" where
  "script [] n = NotReady"
| "script (p # ps) 0 = p"
| "script (p # ps) (Suc n) = script ps n"

section \<open>Console lines of a device (do-oob-device.py)\<close>

text \<open>The loop \<open>while '  ' in txtline\<close> ends, since each round shortens the line.\<close>

lemma length_replace_le:
  "old \<noteq> [] \<Longrightarrow> length new \<le> length old \<Longrightarrow> length (replace s old new) \<le> length s"
proof (induction s old new rule: replace.induct)
  case (1 s old new)
  show ?case
  proof (cases "prefix old s")
    case True
    then have "length old \<le> length s" by (rule prefix_length_le)
    with True 1 show ?thesis by (subst replace.simps) simp
  next
    case False
    with 1 show ?thesis by (subst replace.simps) (auto split: list.splits)
  qed
qed

lemma length_replace_less:
  "old \<noteq> [] \<Longrightarrow> length new < length old \<Longrightarrow> is_in old s \<Longrightarrow>
   length (replace s old new) < length s"
proof (induction s old new rule: replace.induct)
  case (1 s old new)
  show ?case
  proof (cases "prefix old s")
    case True
    then have le: "length old \<le> length s" by (rule prefix_length_le)
    have "length (replace (drop (length old) s) old new) \<le> length s - length old"
      using length_replace_le [of old new "drop (length old) s"] 1(3,4) by simp
    with True 1(3,4) le show ?thesis by (subst replace.simps) simp
  next
    case False
    show ?thesis
    proof (cases s)
      case Nil
      with 1(3,5) show ?thesis by simp
    next
      case (Cons c cs)
      with False 1(5) have "is_in old cs" by simp
      with 1(2) [OF 1(3) False Cons 1(3,4)] have "length (replace cs old new) < length cs" by simp
      with False Cons 1(3) show ?thesis by (subst replace.simps) simp
    qed
  qed
qed

function collapse :: "string \<Rightarrow> string" where
  "collapse txtline =
     (if is_in ''  '' txtline then collapse (replace txtline ''  '' '' '') else txtline)"
  by pat_completeness auto
termination
  by (relation "measure length") (simp_all add: length_replace_less)

declare collapse.simps [simp del]

text \<open>
  One row of the answer to \<open>show line\<close>: \<open>None\<close> when the row adds nothing to \<open>lines\<close>,
  else the key and the value of the entry it sets. \<open>IndexError\<close> and \<open>ValueError\<close> are
  what \<open>data[...]\<close> and \<open>int(roty)\<close> raise.
\<close>

definition offset :: int where
  "offset = 2000"

definition show_line_row :: "string \<Rightarrow> error + (string \<times> string) option" where
  "show_line_row txtline =
     (if is_in ''TTY'' txtline then
        (let txtline = lstrip txtline;
             txtline = (if startswith txtline ''*'' then replace txtline ''*'' [] else txtline);
             txtline = collapse txtline;
             data = split_ws txtline;
             n_cols = int (length data);
             col_roty = n_cols - 7
         in case py_index data 0 of
              None \<Rightarrow> Inl IndexError
            | Some tty \<Rightarrow>
                (let interface = ''As'' @ tty
                 in case py_index data 1 of
                      None \<Rightarrow> Inl IndexError
                    | Some line \<Rightarrow>
                        (case py_index data col_roty of
                           None \<Rightarrow> Inl IndexError
                         | Some roty \<Rightarrow>
                             (let roty = (if roty = ''-'' then line else roty)
                              in case py_int roty of
                                   None \<Rightarrow> Inl ValueError
                                 | Some rotynum \<Rightarrow>
                                     (let line = py_str (offset + rotynum)
                                      in if is_in ''/'' interface
                                         then Inr (Some (line, interface))
                                         else Inr None)))))
      else Inr None)"

text \<open>The loop over the rows fills the dictionary \<open>lines\<close>.\<close>

fun show_line_rows ::
    "string list \<Rightarrow> (string \<times> string) list \<Rightarrow> error + (string \<times> string) list" where
  "show_line_rows [] lines = Inr lines"
| "show_line_rows (txtline # rows) lines =
     (case show_line_row txtline of
        Inl e \<Rightarrow> Inl e
      | Inr None \<Rightarrow> show_line_rows rows lines
      | Inr (Some (line, interface)) \<Rightarrow>
          show_line_rows rows (AList.update line interface lines))"

definition console_lines :: "string \<Rightarrow> error + (string \<times> string) list" where
  "console_lines output = show_line_rows (splitlines output) []"

text \<open>
  A row of the table as text: cells, each a run of whitespace and the column it
  precedes. In a well-formed row the columns are not empty and hold neither whitespace
  nor \<open>*\<close>, and whitespace separates each column from the one before.
\<close>

fun render :: "(string \<times> string) list \<Rightarrow> string" where
  "render [] = []"
| "render ((sep, col) # cells) = sep @ col @ render cells"

definition cell_ok :: "string \<times> string \<Rightarrow> bool" where
  "cell_ok cell =
     (list_all is_space (fst cell) \<and> snd cell \<noteq> [] \<and>
      list_all (\<lambda>x. \<not> is_space x \<and> x \<noteq> CHR ''*'') (snd cell))"

definition row_ok :: "(string \<times> string) list \<Rightarrow> bool" where
  "row_ok cells = (list_all cell_ok cells \<and> list_all (\<lambda>cell. fst cell \<noteq> []) (tl cells))"

section \<open>Properties of the interface-name normalization\<close>

lemma replace_absent: "old \<noteq> [] \<Longrightarrow> \<not> is_in old s \<Longrightarrow> replace s old new = s"
proof (induction s)
  case Nil
  then show ?case by (simp add: replace.simps)
next
  case (Cons c cs)
  then show ?case by (subst replace.simps) simp
qed

lemma ignore_ifName_Nil: "\<not> ignore_ifName []"
  by (simp add: ignore_ifName_def ignore_ifNames_def startswith_def)

lemma length_replace_shrink:
  "old \<noteq> [] \<Longrightarrow> length new + d \<le> length old \<Longrightarrow> is_in old s \<Longrightarrow>
   length (replace s old new) + d \<le> length s"
proof (induction s old new rule: replace.induct)
  case (1 s old new)
  show ?case
  proof (cases "prefix old s")
    case True
    then have le: "length old \<le> length s" by (rule prefix_length_le)
    have "length (replace (drop (length old) s) old new) \<le> length s - length old"
      using length_replace_le [of old new "drop (length old) s"] 1(3,4) by simp
    with True 1(3,4) le show ?thesis by (subst replace.simps) simp
  next
    case False
    show ?thesis
    proof (cases s)
      case Nil
      with 1(3,5) show ?thesis by simp
    next
      case (Cons c cs)
      with False 1(5) have "is_in old cs" by simp
      with 1(2) [OF 1(3) False Cons 1(3,4)] have "length (replace cs old new) + d \<le> length cs"
        by simp
      with False Cons 1(3) show ?thesis by (subst replace.simps) simp
    qed
  qed
qed

lemma replace_each_absent:
  "list_all (\<lambda>rule. fst rule \<noteq> [] \<and> \<not> is_in (fst rule) s) rules \<Longrightarrow> replace_each rules s = s"
  by (induction rules) (simp_all add: replace_each_def replace_absent)

lemma replace_each_le:
  "list_all (\<lambda>rule. fst rule \<noteq> [] \<and> length (snd rule) \<le> length (fst rule)) rules \<Longrightarrow>
   length (replace_each rules s) \<le> length s"
proof (induction rules arbitrary: s)
  case Nil
  then show ?case by (simp add: replace_each_def)
next
  case (Cons rule rules)
  then have "length (replace_each rules (replace s (fst rule) (snd rule))) \<le>
      length (replace s (fst rule) (snd rule))" by simp
  moreover from Cons.prems have "length (replace s (fst rule) (snd rule)) \<le> length s"
    by (simp add: length_replace_le)
  ultimately show ?case by (simp add: replace_each_def)
qed

lemma replace_each_shrink:
  assumes "list_all (\<lambda>rule. fst rule \<noteq> [] \<and> length (snd rule) + d \<le> length (fst rule)) rules"
    and "list_ex (\<lambda>rule. is_in (fst rule) s) rules"
  shows "length (replace_each rules s) + d \<le> length s"
  using assms
proof (induction rules arbitrary: s)
  case Nil
  then show ?case by simp
next
  case (Cons rule rules)
  let ?s = "replace s (fst rule) (snd rule)"
  from Cons.prems(1) have le: "list_all (\<lambda>rule. fst rule \<noteq> [] \<and> length (snd rule) \<le> length (fst rule)) rules"
    by (auto simp: list_all_iff)
  show ?case
  proof (cases "is_in (fst rule) s")
    case True
    with Cons.prems(1) have "length ?s + d \<le> length s"
      by (simp add: length_replace_shrink)
    moreover have "length (replace_each rules ?s) \<le> length ?s" using le by (rule replace_each_le)
    ultimately show ?thesis by (simp add: replace_each_def)
  next
    case False
    with Cons.prems(1) have same: "?s = s" by (simp add: replace_absent)
    from False Cons.prems(2) have "list_ex (\<lambda>rule. is_in (fst rule) s) rules" by simp
    with Cons.IH [of s] Cons.prems(1) have "length (replace_each rules s) + d \<le> length s" by simp
    with same show ?thesis by (simp add: replace_each_def)
  qed
qed

lemma cisco_names_each:
  "cisco_names s = replace_each (zip long_names short_names) s"
  by (simp add: cisco_names_def replace_each_def long_names_def short_names_def)

lemma vlan_names_each:
  "vlan_names s =
     (if startswith (lower s) ''vl'' then replace_each (map (\<lambda>old. (old, [])) vlan_prefixes) s
      else if startswith (lower s) ''br-vlan'' then replace s ''br-vlan'' []
      else s)"
  by (simp add: vlan_names_def replace_each_def vlan_prefixes_def)

lemma cisco_names_settled:
  "list_all (\<lambda>old. \<not> is_in old s) long_names \<Longrightarrow> cisco_names s = s"
  by (simp add: long_names_def cisco_names_def replace_absent)

lemma cisco_names_shrink:
  assumes "\<not> list_all (\<lambda>old. \<not> is_in old s) long_names"
  shows "length (cisco_names s) + 4 \<le> length s"
proof -
  have "list_all (\<lambda>rule. fst rule \<noteq> [] \<and> length (snd rule) + 4 \<le> length (fst rule))
          (zip long_names short_names)"
    by (simp add: long_names_def short_names_def)
  moreover from assms have "list_ex (\<lambda>rule. is_in (fst rule) s) (zip long_names short_names)"
    by (simp add: long_names_def short_names_def)
  ultimately show ?thesis unfolding cisco_names_each by (rule replace_each_shrink)
qed

lemma length_ubiquiti_names: "length (ubiquiti_names s) \<le> length s + 2"
proof -
  have "length (replace t ''3/'' ''Po'') \<le> length t" for t
    by (rule length_replace_le) simp_all
  from this [of s] this [of "''Et'' @ s"] show ?thesis
    by (auto simp: ubiquiti_names_def Let_def)
qed

lemma length_vlan_names: "length (vlan_names s) \<le> length s"
proof -
  have "length (replace_each (map (\<lambda>old. (old, [])) vlan_prefixes) s) \<le> length s"
    by (rule replace_each_le) (simp add: vlan_prefixes_def)
  moreover have "length (replace s ''br-vlan'' []) \<le> length s"
    by (rule length_replace_le) simp_all
  ultimately show ?thesis by (simp add: vlan_names_each)
qed

lemma lower_Cons: "lower (c # s) = lower_chr c # lower s"
  by (simp add: lower_def)

lemma lower_E_P: "lower_chr CHR ''E'' = CHR ''e''" "lower_chr CHR ''P'' = CHR ''p''"
  by code_simp+

lemma settled_fixed:
  assumes "settled s"
  shows "vlan_names (ubiquiti_names (cisco_names s)) = s"
proof -
  from assms have "cisco_names s = s" by (simp add: settled_def cisco_names_settled)
  moreover from assms have "ubiquiti_names s = s" by (simp add: settled_def ubiquiti_names_def)
  moreover from assms have "vlan_names s = s"
    by (auto simp: settled_def vlan_names_def vlan_prefixes_def replace_absent split: if_splits)
  ultimately show ?thesis by simp
qed

lemma fixed_settled:
  assumes "vlan_names (ubiquiti_names (cisco_names s)) = s"
  shows "settled s"
proof (rule ccontr)
  assume ns: "\<not> settled s"
  let ?f = "vlan_names (ubiquiti_names (cisco_names s))"
  show False
  proof (cases "list_all (\<lambda>old. \<not> is_in old s) long_names")
    case False
    then have "length (cisco_names s) + 4 \<le> length s" by (rule cisco_names_shrink)
    moreover have "length ?f \<le> length (cisco_names s) + 2"
      using length_vlan_names [of "ubiquiti_names (cisco_names s)"]
        length_ubiquiti_names [of "cisco_names s"] by simp
    ultimately have "length ?f < length s" by simp
    with assms show False by simp
  next
    case True
    then have c: "cisco_names s = s" by (rule cisco_names_settled)
    show False
    proof (cases "match_slot CHR ''0'' s")
      case True
      then have "ubiquiti_names s = ''Et'' @ s"
        by (simp add: ubiquiti_names_def match_slot_def)
      then have "?f = ''Et'' @ s"
        by (simp add: c vlan_names_def startswith_def lower_Cons lower_E_P)
      with assms show False by simp
    next
      case no0: False
      show False
      proof (cases "match_slot CHR ''3'' s")
        case True
        then obtain rest where s: "s = CHR ''3'' # CHR ''/'' # rest"
          by (auto simp: match_slot_def split: list.splits)
        have "replace s ''3/'' ''Po'' = ''Po'' @ replace rest ''3/'' ''Po''"
          unfolding s by (subst replace.simps) simp
        with True no0 have "ubiquiti_names s = ''Po'' @ replace rest ''3/'' ''Po''"
          by (simp add: ubiquiti_names_def)
        then have "?f = ''Po'' @ replace rest ''3/'' ''Po''"
          by (simp add: c vlan_names_def startswith_def lower_Cons lower_E_P)
        with assms s show False by simp
      next
        case no3: False
        with no0 have u: "ubiquiti_names s = s" by (simp add: ubiquiti_names_def)
        show False
        proof (cases "startswith (lower s) ''vl''")
          case True
          with ns \<open>list_all (\<lambda>old. \<not> is_in old s) long_names\<close> no0 no3
          have "list_ex (\<lambda>rule. is_in (fst rule) s) (map (\<lambda>old. (old, [])) vlan_prefixes)"
            by (simp add: settled_def vlan_prefixes_def)
          moreover have "list_all (\<lambda>rule. fst rule \<noteq> [] \<and> length (snd rule) + 2 \<le> length (fst rule))
              (map (\<lambda>old. (old, [])) vlan_prefixes)"
            by (simp add: vlan_prefixes_def)
          ultimately have "length (replace_each (map (\<lambda>old. (old, [])) vlan_prefixes) s) + 2 \<le> length s"
            by (intro replace_each_shrink)
          with True have "length ?f < length s" by (simp add: c u vlan_names_each)
          with assms show False by simp
        next
          case novl: False
          with ns \<open>list_all (\<lambda>old. \<not> is_in old s) long_names\<close> no0 no3
          have br: "startswith (lower s) ''br-vlan''" and occ: "is_in ''br-vlan'' s"
            by (auto simp: settled_def split: if_splits)
          have "length (replace s ''br-vlan'' []) < length s"
            using occ by (intro length_replace_less) simp_all
          with novl br have "length ?f < length s" by (simp add: c u vlan_names_each)
          with assms show False by simp
        qed
      qed
    qed
  qed
qed

lemma short_ifName_fixed: "(short_ifName s = s) = settled s"
  unfolding short_ifName_def using settled_fixed fixed_settled by blast

lemma settled_Nil: "settled []"
  by (simp add: settled_def long_names_def match_slot_def startswith_def lower_def)

lemma short_ifName_arp_fixed:
  "(short_ifName_arp s = s) = (s = [] \<or> settled s \<and> \<not> ignore_ifName s)"
proof (cases "s = []")
  case True
  then show ?thesis
    using settled_fixed [OF settled_Nil] ignore_ifName_Nil by (simp add: short_ifName_arp_def)
next
  case False
  show ?thesis
  proof (cases "ignore_ifName (vlan_names (ubiquiti_names (cisco_names s)))")
    case True
    with False have "short_ifName_arp s \<noteq> s" by (auto simp: short_ifName_arp_def)
    moreover have "\<not> (settled s \<and> \<not> ignore_ifName s)"
      using True settled_fixed [of s] by auto
    ultimately show ?thesis using False by simp
  next
    case keep: False
    then have "short_ifName_arp s = vlan_names (ubiquiti_names (cisco_names s))"
      by (simp add: short_ifName_arp_def)
    with keep False show ?thesis
      using settled_fixed [of s] fixed_settled [of s] by auto
  qed
qed

lemma short_ifName_arp_kept:
  "short_ifName_arp n = [] \<or> \<not> ignore_ifName (short_ifName_arp n)"
  by (simp add: short_ifName_arp_def Let_def)

lemma replace_Cons:
  "old \<noteq> [] \<Longrightarrow> replace (c # s) old new =
     (if prefix old (c # s) then new @ replace (drop (length old) (c # s)) old new
      else c # replace s old new)"
  by (subst replace.simps) simp

lemma prefix_port:
  "list_all port_chr sfx \<Longrightarrow> \<not> port_chr x \<Longrightarrow> \<not> prefix (x # xs) sfx"
  by (cases sfx) auto

lemma is_in_port:
  "list_all port_chr sfx \<Longrightarrow> \<not> port_chr x \<Longrightarrow> \<not> is_in (x # xs) sfx"
  by (induction sfx) auto

lemma replace_port:
  "list_all port_chr sfx \<Longrightarrow> \<not> port_chr x \<Longrightarrow> replace sfx (x # xs) new = sfx"
  by (rule replace_absent) (simp_all add: is_in_port)

lemma cisco_names_long:
  assumes "list_all port_chr sfx"
  shows "cisco_names (''TenGigabitEthernet'' @ sfx) = ''Te'' @ sfx"
    and "cisco_names (''GigabitEthernet'' @ sfx) = ''Gi'' @ sfx"
    and "cisco_names (''FastEthernet'' @ sfx) = ''Fa'' @ sfx"
    and "cisco_names (''Ethernet'' @ sfx) = ''Et'' @ sfx"
    and "cisco_names (''Management'' @ sfx) = ''Ma'' @ sfx"
    and "cisco_names (''Port-channel'' @ sfx) = ''Po'' @ sfx"
    and "cisco_names (''port-channel'' @ sfx) = ''Po'' @ sfx"
    and "cisco_names (''switch'' @ sfx) = ''Et'' @ sfx"
  using assms
  by (simp_all add: cisco_names_def replace_Cons replace_port prefix_port port_chr_def)

lemma not_ignored_short:
  assumes "short \<in> set short_names"
  shows "\<not> ignore_ifName (short @ sfx)"
  using assms
  by (auto simp: short_names_def ignore_ifName_def ignore_ifNames_def startswith_def)

lemma long_name_short:
  assumes "list_all port_chr sfx" "(old, short) \<in> set (zip long_names short_names)"
  shows "cisco_names (old @ sfx) = short @ sfx"
  using assms(2) cisco_names_long [OF assms(1)]
  by (auto simp: long_names_def short_names_def)

lemma lower_letters:
  "lower_chr CHR ''T'' = CHR ''t''" "lower_chr CHR ''G'' = CHR ''g''"
  "lower_chr CHR ''F'' = CHR ''f''" "lower_chr CHR ''M'' = CHR ''m''"
  "lower_chr CHR ''V'' = CHR ''v''" "lower_chr CHR ''L'' = CHR ''l''"
  "lower_chr CHR ''v'' = CHR ''v''" "lower_chr CHR ''l'' = CHR ''l''"
  "lower_chr CHR ''b'' = CHR ''b''" "lower_chr CHR ''r'' = CHR ''r''"
  "lower_chr CHR ''-'' = CHR ''-''" "lower_chr CHR ''a'' = CHR ''a''"
  "lower_chr CHR ''n'' = CHR ''n''"
  by code_simp+

lemma lower_digit: "is_digit c \<Longrightarrow> lower_chr c = c"
  by (auto simp: is_digit_def lower_letters lower_chr_def)

lemma not_digit_slash: "\<not> is_digit CHR ''/''"
  by (simp add: is_digit_def)

lemma digit_port: "is_digit c \<Longrightarrow> port_chr c"
  by (auto simp: is_digit_def port_chr_def)

lemma digits_port: "list_all is_digit ds \<Longrightarrow> list_all port_chr ds"
  by (induction ds) (simp_all add: digit_port)

lemma digits_no_slot:
  assumes "list_all is_digit ds"
  shows "\<not> match_slot d ds"
proof (cases ds)
  case Nil
  then show ?thesis by (simp add: match_slot_def)
next
  case (Cons c s')
  show ?thesis
  proof (cases s')
    case Nil
    with Cons show ?thesis by (simp add: match_slot_def)
  next
    case (Cons sl rest)
    with assms \<open>ds = c # s'\<close> have "is_digit sl" by simp
    with not_digit_slash have "sl \<noteq> CHR ''/''" by auto
    with Cons \<open>ds = c # s'\<close> show ?thesis by (simp add: match_slot_def)
  qed
qed

lemma digits_slot:
  assumes "list_all is_digit ds" "ds \<noteq> []"
  shows "match_slot d (d # CHR ''/'' # ds)"
proof -
  from assms(1) have "\<forall>x\<in>set ds. is_digit x" by (simp add: list_all_iff)
  then have t: "takeWhile is_digit ds = ds" and dr: "dropWhile is_digit ds = []"
    by simp_all
  show ?thesis unfolding match_slot_def list.case t dr using assms(2) by simp
qed

lemma settled_short:
  assumes "list_all port_chr sfx" "short \<in> set short_names"
  shows "settled (short @ sfx)"
  using assms
  by (auto simp: short_names_def settled_def long_names_def is_in_port prefix_port port_chr_def
        match_slot_def startswith_def lower_Cons lower_letters lower_E_P)

lemma digits_no_prefix:
  assumes "list_all is_digit ds" "\<not> is_digit x"
  shows "\<not> startswith (lower ds) (x # xs)"
proof (cases ds)
  case Nil
  then show ?thesis by (simp add: startswith_def lower_def)
next
  case (Cons c cs)
  with assms(1) have c: "is_digit c" by simp
  then have "lower_chr c = c" by (rule lower_digit)
  moreover from c assms(2) have "c \<noteq> x" by auto
  ultimately show ?thesis by (simp add: Cons startswith_def lower_Cons)
qed

lemma settled_digits:
  assumes "list_all is_digit ds"
  shows "settled ds"
proof -
  from assms have p: "list_all port_chr ds" by (rule digits_port)
  have "\<not> is_digit CHR ''v''" "\<not> is_digit CHR ''b''" by (simp_all add: is_digit_def)
  with assms have v: "\<not> startswith (lower ds) ''vl''" and b: "\<not> startswith (lower ds) ''br-vlan''"
    by (simp_all add: digits_no_prefix)
  have l: "list_all (\<lambda>old. \<not> is_in old ds) long_names"
    using p by (simp add: long_names_def is_in_port port_chr_def)
  from assms have s: "\<not> match_slot CHR ''0'' ds" "\<not> match_slot CHR ''3'' ds"
    by (simp_all add: digits_no_slot)
  show ?thesis unfolding settled_def using l s v b by simp
qed

lemma settled_Et0:
  assumes "list_all is_digit ds"
  shows "settled (''Et0/'' @ ds)"
  using digits_port [OF assms]
  by (auto simp: settled_def long_names_def is_in_port prefix_port port_chr_def
        match_slot_def startswith_def lower_Cons lower_E_P)

lemma settled_vlan_lower:
  assumes "list_all port_chr sfx"
  shows "settled (''vlan'' @ sfx)"
  using assms
  by (auto simp: settled_def long_names_def vlan_prefixes_def is_in_port prefix_port port_chr_def
        match_slot_def startswith_def lower_Cons lower_letters)

lemma digits_no_slash:
  "list_all is_digit ds \<Longrightarrow> \<not> is_in (c # CHR ''/'' # r) ds"
proof (induction ds)
  case Nil
  then show ?case by simp
next
  case (Cons d ds)
  then have "\<not> prefix (CHR ''/'' # r) ds"
    using not_digit_slash by (cases ds) auto
  with Cons show ?case by simp
qed

lemma slot_names:
  assumes "list_all is_digit ds" "ds \<noteq> []"
  shows "short_ifName (''0/'' @ ds) = ''Et0/'' @ ds"
    and "short_ifName (''3/'' @ ds) = ''Po'' @ ds"
proof -
  from assms(1) have p: "list_all port_chr ds" by (rule digits_port)
  have c0: "cisco_names (''0/'' @ ds) = ''0/'' @ ds"
    using p by (intro cisco_names_settled) (simp add: long_names_def is_in_port port_chr_def)
  have c3: "cisco_names (''3/'' @ ds) = ''3/'' @ ds"
    using p by (intro cisco_names_settled) (simp add: long_names_def is_in_port port_chr_def)
  have m0: "match_slot CHR ''0'' (''0/'' @ ds)" and m3: "match_slot CHR ''3'' (''3/'' @ ds)"
    using digits_slot [OF assms] by simp_all
  have n3: "\<not> match_slot CHR ''3'' (''Et0/'' @ ds)" and n0: "\<not> match_slot CHR ''0'' (''3/'' @ ds)"
    by (simp_all add: match_slot_def)
  have u0: "ubiquiti_names (''0/'' @ ds) = ''Et0/'' @ ds"
    using m0 n3 by (simp add: ubiquiti_names_def)
  have "replace ds ''3/'' ''Po'' = ds"
    using assms(1) by (intro replace_absent) (simp_all add: digits_no_slash)
  then have "replace (''3/'' @ ds) ''3/'' ''Po'' = ''Po'' @ ds"
    by (simp add: replace_Cons)
  with m3 n0 have u3: "ubiquiti_names (''3/'' @ ds) = ''Po'' @ ds"
    by (simp add: ubiquiti_names_def)
  show "short_ifName (''0/'' @ ds) = ''Et0/'' @ ds"
    unfolding short_ifName_def c0 u0
    by (simp add: vlan_names_def startswith_def lower_Cons lower_E_P)
  show "short_ifName (''3/'' @ ds) = ''Po'' @ ds"
    unfolding short_ifName_def c3 u3
    by (simp add: vlan_names_def startswith_def lower_Cons lower_E_P)
qed

lemma vlan_names_prefixed:
  assumes "list_all is_digit ds"
  shows "short_ifName (''Vlan'' @ ds) = ds"
    and "short_ifName (''Vl'' @ ds) = ds"
    and "short_ifName (''VLAN- '' @ ds) = ds"
    and "short_ifName (''br-vlan'' @ ds) = ds"
proof -
  from assms have p: "list_all port_chr ds" by (rule digits_port)
  have c: "cisco_names (''Vlan'' @ ds) = ''Vlan'' @ ds" "cisco_names (''Vl'' @ ds) = ''Vl'' @ ds"
    "cisco_names (''VLAN- '' @ ds) = ''VLAN- '' @ ds" "cisco_names (''br-vlan'' @ ds) = ''br-vlan'' @ ds"
    using p
    by (simp_all add: cisco_names_def replace_Cons replace_port prefix_port port_chr_def)
  have u: "ubiquiti_names (''Vlan'' @ ds) = ''Vlan'' @ ds" "ubiquiti_names (''Vl'' @ ds) = ''Vl'' @ ds"
    "ubiquiti_names (''VLAN- '' @ ds) = ''VLAN- '' @ ds"
    "ubiquiti_names (''br-vlan'' @ ds) = ''br-vlan'' @ ds"
    by (simp_all add: ubiquiti_names_def match_slot_def)
  have v: "vlan_names (''Vlan'' @ ds) = ds" "vlan_names (''Vl'' @ ds) = ds"
    "vlan_names (''VLAN- '' @ ds) = ds" "vlan_names (''br-vlan'' @ ds) = ds"
    using p
    by (simp_all add: vlan_names_def startswith_def lower_Cons lower_letters
          replace_Cons replace_port prefix_port port_chr_def)
  show "short_ifName (''Vlan'' @ ds) = ds" "short_ifName (''Vl'' @ ds) = ds"
    "short_ifName (''VLAN- '' @ ds) = ds" "short_ifName (''br-vlan'' @ ds) = ds"
    unfolding short_ifName_def c u v by simp_all
qed

text \<open>
  C8, as the claim states it, fails: \<open>Vlan3/5\<close> is normalized to \<open>3/5\<close>, and \<open>3/5\<close> is a
  Ubiquiti slot name that is normalized to \<open>Po5\<close>; so in both scripts.
\<close>

theorem short_ifName_not_idempotent:
  "short_ifName (short_ifName ''Vlan3/5'') \<noteq> short_ifName ''Vlan3/5'' \<and>
   short_ifName_arp (short_ifName_arp ''Vlan3/5'') \<noteq> short_ifName_arp ''Vlan3/5''"
  by code_simp

text \<open>
  C8, amended: normalization is idempotent at a name exactly when the normalized form of
  the name is settled, in get-snmp-mac.py and in get-snmp-arp.py. It is so for the names
  the devices use: a long name with a port suffix becomes the short name with the same
  suffix; \<open>0/\<close> and \<open>3/\<close> with digits become \<open>Et0/\<close> and \<open>Po\<close> with the digits; \<open>Vlan\<close>,
  \<open>Vl\<close>, \<open>VLAN- \<close> and \<open>br-vlan\<close> with digits become the digits; \<open>vlan\<close> with a port
  suffix stays; and each of these forms is normalized to itself.
\<close>

theorem short_ifName_idempotent_iff_settled:
  "(short_ifName (short_ifName n) = short_ifName n) = settled (short_ifName n) \<and>
   (short_ifName_arp (short_ifName_arp n) = short_ifName_arp n) =
     settled (short_ifName_arp n) \<and>
   ((old, short) \<in> set (zip long_names short_names) \<and> list_all port_chr sfx \<longrightarrow>
      short_ifName (old @ sfx) = short @ sfx \<and> short_ifName (short @ sfx) = short @ sfx \<and>
      short_ifName_arp (old @ sfx) = short @ sfx \<and>
      short_ifName_arp (short @ sfx) = short @ sfx) \<and>
   (list_all is_digit ds \<and> ds \<noteq> [] \<longrightarrow>
      short_ifName (''0/'' @ ds) = ''Et0/'' @ ds \<and>
      short_ifName (''Et0/'' @ ds) = ''Et0/'' @ ds \<and>
      short_ifName (''3/'' @ ds) = ''Po'' @ ds \<and>
      short_ifName (''Po'' @ ds) = ''Po'' @ ds \<and>
      short_ifName (''Vlan'' @ ds) = ds \<and> short_ifName (''Vl'' @ ds) = ds \<and>
      short_ifName (''VLAN- '' @ ds) = ds \<and> short_ifName (''br-vlan'' @ ds) = ds \<and>
      short_ifName ds = ds) \<and>
   (list_all port_chr sfx \<longrightarrow> short_ifName (''vlan'' @ sfx) = ''vlan'' @ sfx)"
proof (intro conjI impI)
  show "(short_ifName (short_ifName n) = short_ifName n) = settled (short_ifName n)"
    by (rule short_ifName_fixed)
next
  show "(short_ifName_arp (short_ifName_arp n) = short_ifName_arp n) =
      settled (short_ifName_arp n)"
    using short_ifName_arp_fixed [of "short_ifName_arp n"] short_ifName_arp_kept [of n] settled_Nil
    by auto
next
  assume h: "(old, short) \<in> set (zip long_names short_names) \<and> list_all port_chr sfx"
  then have sfx: "list_all port_chr sfx" and short: "short \<in> set short_names"
    by (auto dest: set_zip_rightD)
  from h have long: "cisco_names (old @ sfx) = short @ sfx"
    by (intro long_name_short) simp_all
  have st: "settled (short @ sfx)" using sfx short by (rule settled_short)
  have keep: "\<not> ignore_ifName (short @ sfx)" using short by (rule not_ignored_short)
  have stable: "vlan_names (ubiquiti_names (cisco_names (short @ sfx))) = short @ sfx"
    using st by (rule settled_fixed)
  have "cisco_names (short @ sfx) = short @ sfx"
    using st by (simp add: settled_def cisco_names_settled)
  with stable have "vlan_names (ubiquiti_names (short @ sfx)) = short @ sfx" by simp
  then have norm: "vlan_names (ubiquiti_names (cisco_names (old @ sfx))) = short @ sfx"
    unfolding long .
  show "short_ifName (old @ sfx) = short @ sfx" by (simp add: short_ifName_def norm)
  show "short_ifName (short @ sfx) = short @ sfx" by (simp add: short_ifName_def stable)
  show "short_ifName_arp (old @ sfx) = short @ sfx"
    using keep by (simp add: short_ifName_arp_def norm)
  show "short_ifName_arp (short @ sfx) = short @ sfx"
    using keep by (simp add: short_ifName_arp_def stable)
next
  assume h: "list_all is_digit ds \<and> ds \<noteq> []"
  then have ds: "list_all is_digit ds" and ne: "ds \<noteq> []" by simp_all
  show "short_ifName (''0/'' @ ds) = ''Et0/'' @ ds" using ds ne by (rule slot_names)
  show "short_ifName (''3/'' @ ds) = ''Po'' @ ds" using ds ne by (rule slot_names)
  show "short_ifName (''Et0/'' @ ds) = ''Et0/'' @ ds"
    using settled_Et0 [OF ds] short_ifName_fixed by blast
  have "''Po'' \<in> set short_names" by (simp add: short_names_def)
  with digits_port [OF ds] have "settled (''Po'' @ ds)" by (rule settled_short)
  then show "short_ifName (''Po'' @ ds) = ''Po'' @ ds" using short_ifName_fixed by blast
  show "short_ifName (''Vlan'' @ ds) = ds" using ds by (rule vlan_names_prefixed)
  show "short_ifName (''Vl'' @ ds) = ds" using ds by (rule vlan_names_prefixed)
  show "short_ifName (''VLAN- '' @ ds) = ds" using ds by (rule vlan_names_prefixed)
  show "short_ifName (''br-vlan'' @ ds) = ds" using ds by (rule vlan_names_prefixed)
  show "short_ifName ds = ds" using settled_digits [OF ds] short_ifName_fixed by blast
next
  assume "list_all port_chr sfx"
  then have "settled (''vlan'' @ sfx)" by (rule settled_vlan_lower)
  then show "short_ifName (''vlan'' @ sfx) = ''vlan'' @ sfx" using short_ifName_fixed by blast
qed

theorem short_ifName_idempotent_witness:
  "settled (short_ifName ''vlan.100'') \<and>
   short_ifName (short_ifName ''vlan.100'') = short_ifName ''vlan.100'' \<and>
   settled (short_ifName ''BR-VLAN5'') \<and>
   short_ifName (short_ifName ''BR-VLAN5'') = short_ifName ''BR-VLAN5'' \<and>
   \<not> settled (short_ifName ''Vlan3/5'') \<and>
   short_ifName (short_ifName ''Vlan3/5'') \<noteq> short_ifName ''Vlan3/5'' \<and>
   settled (short_ifName_arp ''lo0.16384'') \<and>
   short_ifName_arp (short_ifName_arp ''lo0.16384'') = short_ifName_arp ''lo0.16384'' \<and>
   (''GigabitEthernet'', ''Gi'') \<in> set (zip long_names short_names) \<and>
   list_all port_chr ''1/0/1'' \<and>
   short_ifName ''GigabitEthernet1/0/1'' = ''Gi1/0/1'' \<and>
   short_ifName ''Gi1/0/1'' = ''Gi1/0/1'' \<and>
   list_all is_digit ''24'' \<and>
   short_ifName ''0/24'' = ''Et0/24'' \<and> short_ifName ''3/24'' = ''Po24'' \<and>
   short_ifName ''Vlan24'' = ''24'' \<and> short_ifName ''24'' = ''24''"
proof -
  note char = short_ifName_idempotent_iff_settled
  have a: "settled (short_ifName ''vlan.100'')" by code_simp
  have b: "settled (short_ifName ''BR-VLAN5'')" by code_simp
  have c: "\<not> settled (short_ifName ''Vlan3/5'')" by code_simp
  have d: "settled (short_ifName_arp ''lo0.16384'')" by code_simp
  have e: "(''GigabitEthernet'', ''Gi'') \<in> set (zip long_names short_names)" by code_simp
  have f: "list_all port_chr ''1/0/1''" by code_simp
  have g: "list_all is_digit ''24''" by code_simp
  from a char [of "''vlan.100''"]
  have 1: "short_ifName (short_ifName ''vlan.100'') = short_ifName ''vlan.100''" by blast
  from b char [of "''BR-VLAN5''"]
  have 2: "short_ifName (short_ifName ''BR-VLAN5'') = short_ifName ''BR-VLAN5''" by blast
  from c char [of "''Vlan3/5''"]
  have 3: "short_ifName (short_ifName ''Vlan3/5'') \<noteq> short_ifName ''Vlan3/5''" by blast
  from d char [of "''lo0.16384''"]
  have 4: "short_ifName_arp (short_ifName_arp ''lo0.16384'') = short_ifName_arp ''lo0.16384''"
    by blast
  from e f char [where old = "''GigabitEthernet''" and short = "''Gi''" and sfx = "''1/0/1''"]
  have "short_ifName (''GigabitEthernet'' @ ''1/0/1'') = ''Gi'' @ ''1/0/1'' \<and>
        short_ifName (''Gi'' @ ''1/0/1'') = ''Gi'' @ ''1/0/1''" by blast
  then have 5: "short_ifName ''GigabitEthernet1/0/1'' = ''Gi1/0/1'' \<and>
                short_ifName ''Gi1/0/1'' = ''Gi1/0/1''" by simp
  have ne: "''24'' \<noteq> []" by simp
  from g ne char [where ds = "''24''"]
  have "short_ifName (''0/'' @ ''24'') = ''Et0/'' @ ''24'' \<and>
        short_ifName (''3/'' @ ''24'') = ''Po'' @ ''24'' \<and>
        short_ifName (''Vlan'' @ ''24'') = ''24'' \<and> short_ifName ''24'' = ''24''" by blast
  then have 6: "short_ifName ''0/24'' = ''Et0/24'' \<and> short_ifName ''3/24'' = ''Po24'' \<and>
                short_ifName ''Vlan24'' = ''24'' \<and> short_ifName ''24'' = ''24''" by simp
  from a b c d e f g 1 2 3 4 5 6 show ?thesis by blast
qed

section \<open>Properties of the credential store\<close>

lemma realm_line_NET1:
  "is_entry (clean ''*NET1;admin;ENC;*\<newline>'')"
  "count_chr (clean ''*NET1;admin;ENC;*\<newline>'') CHR '';'' = 3"
  "split_chr (clean ''*NET1;admin;ENC;*\<newline>'') CHR '';'' =
     [''*NET1'', ''admin'', ''ENC'', ''*'']"
  by code_simp+

lemma device_line_r1:
  "valid_line (clean ''r1;;ios;*NET1;*NET1;*NET1\<newline>'')"
  "split_chr (clean ''r1;;ios;*NET1;*NET1;*NET1\<newline>'') CHR '';'' =
     [''r1'', [], ''ios'', ''*NET1'', ''*NET1'', ''*NET1'']"
  by code_simp+

lemma startswith_NET1: "startswith ''*NET1'' ''*''"
  by code_simp

lemma realm_NET1_read:
  assumes "dec ''ENC'' = Inr p" "p \<noteq> []"
  shows "read_credentials dec (Some [''*NET1;admin;ENC;*\<newline>'']) =
     Inr (Some [(''*NET1'', \<lparr>username = ''admin'', password = p, secret = p\<rparr>)])"
  using assms by (simp add: read_credentials_def realm_line_NET1)

lemma device_r1_read:
  assumes "p \<noteq> []"
  shows "read_deviceinfo v dec [(''*NET1'', \<lparr>username = ''admin'', password = p, secret = p\<rparr>)]
           (Some [''r1;;ios;*NET1;*NET1;*NET1\<newline>'']) ''r1'' =
         (Inr (Credentials \<lparr>username = ''admin'', password = p, secret = p, ip = ''r1'',
                 global_delay_factor = 3, device_type = ''ios''\<rparr>, 22), [])"
  using assms
  by (simp add: read_deviceinfo_def device_line_r1 resolve_line_def resolve_fields_def
        resolve_username_def resolve_secret_def realm_field_def startswith_NET1)

text \<open>
  C3, as the claim states it, fails. The realm is stored under the name \<open>NET1\<close>, the
  reference is looked up as \<open>*NET1\<close>: pwdecrypt.py raises \<open>KeyError\<close>. In
  SSH\_pwdecrypt.py the user name becomes empty, the password field of the device line
  is empty, and the device is returned as \<open>''\<close>.
\<close>

theorem scenario_A_as_stated:
  "read_credentials sample_decrypt (Some [''NET1;admin;ENC;*\<newline>'']) =
     Inr (Some [(''NET1'', \<lparr>username = ''admin'', password = ''pw'', secret = ''pw''\<rparr>)]) \<and>
   get_credentials Pwdecrypt sample_decrypt
     \<lparr>DO_DEVICE = Some ''/etc/do-device'', isdir = True,
      credentials_txt = Some [''NET1;admin;ENC;*\<newline>''],
      deviceinfo_txt = Some [''r1;;ios;*NET1;;*\<newline>'']\<rparr> ''r1'' = Inl KeyError \<and>
   get_credentials SSH_pwdecrypt sample_decrypt
     \<lparr>DO_DEVICE = Some ''/etc/do-device'', isdir = True,
      credentials_txt = Some [''NET1;admin;ENC;*\<newline>''],
      deviceinfo_txt = Some [''r1;;ios;*NET1;;*\<newline>'']\<rparr> ''r1'' = Inr (Empty, 22)"
  by code_simp

text \<open>
  C3, amended: with the realm line \<open>*NET1;admin;ENC;*\<close>, where \<open>ENC\<close> decrypts to a
  password that is not empty, and the device line \<open>r1;;ios;*NET1;*NET1;*NET1\<close>,
  resolving \<open>r1\<close> succeeds in both files: the address is \<open>r1\<close>, the user name \<open>admin\<close>,
  the password the decrypted \<open>ENC\<close>, and the enable secret equals the password, by the
  \<open>*\<close> of the realm line.
\<close>

theorem scenario_A_starred_realm:
  assumes "dec ''ENC'' = Inr p" "p \<noteq> []"
  shows "get_credentials v dec
           \<lparr>DO_DEVICE = Some dir, isdir = True,
            credentials_txt = Some [''*NET1;admin;ENC;*\<newline>''],
            deviceinfo_txt = Some [''r1;;ios;*NET1;*NET1;*NET1\<newline>'']\<rparr> ''r1'' =
         Inr (Credentials \<lparr>username = ''admin'', password = p, secret = p, ip = ''r1'',
                 global_delay_factor = 3, device_type = ''ios''\<rparr>, 22)"
  using assms by (simp add: get_credentials_def realm_NET1_read [of dec p] device_r1_read)

theorem scenario_A_starred_realm_witness:
  "sample_decrypt ''ENC'' = Inr ''pw'' \<and> ''pw'' \<noteq> [] \<and>
   get_credentials Pwdecrypt sample_decrypt
     \<lparr>DO_DEVICE = Some ''/etc/do-device'', isdir = True,
      credentials_txt = Some [''*NET1;admin;ENC;*\<newline>''],
      deviceinfo_txt = Some [''r1;;ios;*NET1;*NET1;*NET1\<newline>'']\<rparr> ''r1'' =
   Inr (Credentials \<lparr>username = ''admin'', password = ''pw'', secret = ''pw'', ip = ''r1'',
           global_delay_factor = 3, device_type = ''ios''\<rparr>, 22)"
proof -
  have h: "sample_decrypt ''ENC'' = Inr ''pw''" by (simp add: sample_decrypt_def)
  have n: "''pw'' \<noteq> []" by simp
  from h n scenario_A_starred_realm
      [where dec = sample_decrypt and p = "''pw''" and v = Pwdecrypt and dir = "''/etc/do-device''"]
  show ?thesis by blast
qed

lemma no_credentials_not_Credentials: "no_credentials v \<noteq> Inr (Credentials c, p)"
  by (cases v) (simp_all add: no_credentials_def)

text \<open>
  C4, as the claim states it, fails: a realm file without any realm makes
  \<open>read_credentials\<close> return \<open>None\<close>, not an empty table, and \<open>get_credentials\<close> then gives
  no credentials for \<open>r1\<close>, a device whose line holds no realm reference and which
  \<open>read_deviceinfo\<close> resolves against the empty table.
\<close>

theorem no_realms_as_stated:
  "read_credentials sample_decrypt (Some [''# no realms\<newline>'']) = Inr None \<and>
   get_credentials SSH_pwdecrypt sample_decrypt
     \<lparr>DO_DEVICE = Some ''/etc/do-device'', isdir = True,
      credentials_txt = Some [''# no realms\<newline>''],
      deviceinfo_txt = Some [''r1;10.0.0.1;ios;admin;ENC;ENC\<newline>'']\<rparr> ''r1'' =
     Inr (PyNone, 22) \<and>
   get_credentials Pwdecrypt sample_decrypt
     \<lparr>DO_DEVICE = Some ''/etc/do-device'', isdir = True,
      credentials_txt = Some [''# no realms\<newline>''],
      deviceinfo_txt = Some [''r1;10.0.0.1;ios;admin;ENC;ENC\<newline>'']\<rparr> ''r1'' =
     Inl UnboundLocalError \<and>
   fst (read_deviceinfo SSH_pwdecrypt sample_decrypt []
          (Some [''r1;10.0.0.1;ios;admin;ENC;ENC\<newline>'']) ''r1'') =
     Inr (Credentials \<lparr>username = ''admin'', password = ''pw'', secret = ''pw'',
            ip = ''10.0.0.1'', global_delay_factor = 3, device_type = ''ios''\<rparr>, 22)"
  by code_simp

text \<open>
  C4, amended: when the realm file yields no realm, \<open>read_credentials\<close> returns \<open>None\<close>
  and \<open>get_credentials\<close> returns credentials for no device, whatever the device file
  holds; in SSH\_pwdecrypt.py it returns \<open>None\<close> with port 22.
\<close>

theorem no_realms_no_credentials:
  assumes "read_realms dec lines [] = Inr []"
  shows "read_credentials dec (Some lines) = Inr None \<and>
         get_credentials SSH_pwdecrypt dec (st\<lparr>credentials_txt := Some lines\<rparr>) device =
           Inr (PyNone, 22) \<and>
         get_credentials v dec (st\<lparr>credentials_txt := Some lines\<rparr>) device \<noteq>
           Inr (Credentials c, p)"
proof -
  have rc: "read_credentials dec (Some lines) = Inr None"
    using assms by (simp add: read_credentials_def)
  have gc: "get_credentials v dec (st\<lparr>credentials_txt := Some lines\<rparr>) device = no_credentials v"
    for v
    using rc by (simp add: get_credentials_def split: option.splits)
  show ?thesis
    using rc gc no_credentials_not_Credentials by (simp add: no_credentials_def)
qed

theorem no_realms_no_credentials_witness:
  "read_realms sample_decrypt [''# no realms\<newline>''] [] = Inr [] \<and>
   get_credentials SSH_pwdecrypt sample_decrypt
     (\<lparr>DO_DEVICE = Some ''/etc/do-device'', isdir = True, credentials_txt = None,
       deviceinfo_txt = Some [''r1;10.0.0.1;ios;admin;ENC;ENC\<newline>'']\<rparr>
      \<lparr>credentials_txt := Some [''# no realms\<newline>'']\<rparr>) ''r1'' = Inr (PyNone, 22)"
proof -
  have h: "read_realms sample_decrypt [''# no realms\<newline>''] [] = Inr []" by code_simp
  from h no_realms_no_credentials [OF h] show ?thesis by blast
qed

text \<open>
  C5: the reference \<open>*LAB\<close> names no realm of the table. pwdecrypt.py indexes the
  dictionary with it and \<open>read_deviceinfo\<close> ends in \<open>KeyError\<close>, where the claim asks for
  an empty field; SSH\_pwdecrypt.py empties the field and returns the device as \<open>''\<close>.
\<close>

theorem unknown_realm_KeyError:
  "fst (read_deviceinfo Pwdecrypt dec
          [(''*NET1'', \<lparr>username = ''admin'', password = ''pw'', secret = ''pw''\<rparr>)]
          (Some [''r1;;ios;*LAB;*NET1;*NET1\<newline>'']) ''r1'') = Inl KeyError \<and>
   fst (read_deviceinfo SSH_pwdecrypt dec
          [(''*NET1'', \<lparr>username = ''admin'', password = ''pw'', secret = ''pw''\<rparr>)]
          (Some [''r1;;ios;*LAB;*NET1;*NET1\<newline>'']) ''r1'') = Inr (Empty, 22)"
  by code_simp

lemma split_chr_first: "\<exists>ws. split_chr s c = takeWhile (\<lambda>x. x \<noteq> c) s # ws"
  by (induction s) auto

lemma resolve_secret_calls:
  "resolve_secret v dec realms field s = (Inr x, calls) \<Longrightarrow>
   calls = filter (\<lambda>f. f \<noteq> [] \<and> \<not> startswith f ''*'') [s]"
  by (auto simp: resolve_secret_def split: if_splits)

lemma resolve_fields_Inr:
  assumes "resolve_fields v dec realms dev addr dtype uname pw sec p = (Inr dl, calls)"
  shows "curdevice dl = dev \<and>
         calls = filter (\<lambda>f. f \<noteq> [] \<and> \<not> startswith f ''*'') [pw, sec]"
proof -
  from assms obtain u x c1 y c2 where
    "resolve_secret v dec realms password pw = (Inr x, c1)"
    "resolve_secret v dec realms secret sec = (Inr y, c2)"
    "calls = c1 @ c2" "curdevice dl = dev"
    by (auto simp: resolve_fields_def Let_def split: sum.splits prod.splits)
  then show ?thesis
    using resolve_secret_calls [of v dec realms password pw x c1]
      resolve_secret_calls [of v dec realms secret sec y c2]
    by auto
qed

lemma resolve_line_Inr:
  assumes "resolve_line v dec realms curline = (Inr dl, calls)"
  shows "curdevice dl = device_id curline \<and> calls = literal_fields curline"
proof -
  obtain ws where ws: "split_chr curline CHR '';'' = device_id curline # ws"
    using split_chr_first [of curline "CHR '';''"] by (auto simp: device_id_def)
  from assms ws show ?thesis
    by (auto simp: resolve_line_def literal_fields_def split: list.splits option.splits
          dest!: resolve_fields_Inr)
qed


lemma scan_devices_calls_prefix:
  "scan_devices v dec realms device lines p calls = (res, log) \<Longrightarrow> \<exists>after. log = calls @ after"
proof (induction lines arbitrary: p calls)
  case Nil
  then show ?case by simp
next
  case (Cons line lines)
  show ?case
  proof (cases "valid_line (clean line)")
    case False
    with Cons show ?thesis by simp
  next
    case True
    obtain rl c where rl: "resolve_line v dec realms (clean line) = (rl, c)"
      by (cases "resolve_line v dec realms (clean line)")
    show ?thesis
    proof (cases rl)
      case (Inl e)
      with Cons.prems True rl show ?thesis by auto
    next
      case (Inr dl)
      show ?thesis
      proof (cases "curdevice dl = device")
        case True
        with Cons.prems \<open>valid_line (clean line)\<close> rl Inr show ?thesis
          by (auto split: if_splits)
      next
        case False
        with Cons.prems \<open>valid_line (clean line)\<close> rl Inr
        have "scan_devices v dec realms device lines (port dl) (calls @ c) = (res, log)"
          by simp
        from Cons.IH [OF this] show ?thesis by auto
      qed
    qed
  qed
qed

lemma scan_devices_earlier:
  assumes "\<forall>l\<in>set earlier. valid_line (clean l) \<longrightarrow> device_id (clean l) \<noteq> device"
    and "scan_devices v dec realms device (earlier @ rest) p calls = (Inr r, log)"
  shows "(\<forall>l\<in>set earlier. valid_line (clean l) \<longrightarrow>
            (\<exists>dl. resolve_line v dec realms (clean l) = (Inr dl, literal_fields (clean l)))) \<and>
         (\<exists>p'. scan_devices v dec realms device rest p'
                  (calls @ concat (map (\<lambda>l. literal_fields (clean l))
                                     (filter (\<lambda>l. valid_line (clean l)) earlier))) =
                (Inr r, log))"
  using assms
proof (induction earlier arbitrary: p calls)
  case Nil
  then show ?case by auto
next
  case (Cons line earlier)
  show ?case
  proof (cases "valid_line (clean line)")
    case False
    with Cons.prems have "scan_devices v dec realms device (earlier @ rest) p calls = (Inr r, log)"
      by simp
    with Cons.IH [of p calls] Cons.prems(1) False show ?thesis by simp
  next
    case True
    obtain rl c where rl: "resolve_line v dec realms (clean line) = (rl, c)"
      by (cases "resolve_line v dec realms (clean line)")
    from Cons.prems(2) True rl obtain dl where dl: "rl = Inr dl"
      by (cases rl) auto
    from resolve_line_Inr [of v dec realms "clean line" dl c] rl dl
    have cd: "curdevice dl = device_id (clean line)" and c: "c = literal_fields (clean line)"
      by simp_all
    from Cons.prems(1) True cd have "curdevice dl \<noteq> device" by simp
    with Cons.prems(2) True rl dl
    have "scan_devices v dec realms device (earlier @ rest) (port dl) (calls @ c) = (Inr r, log)"
      by simp
    with Cons.IH [of "port dl" "calls @ c"] Cons.prems(1) True rl dl c
    show ?thesis by simp
  qed
qed

text \<open>
  C10: \<open>read_deviceinfo\<close> resolves the secret fields of every valid line before it
  compares the device id. When it returns for the requested device, every valid line it
  has reached (no earlier valid line carried the requested id) was resolved without
  raising, and the tokens handed to \<open>decrypt_password\<close> begin with the literal fields
  of all these lines, unrelated devices included, in file order; after the matching line
  nothing is decrypted any more. So in pwdecrypt.py and in SSH\_pwdecrypt.py.
\<close>

theorem earlier_lines_resolved_first:
  assumes "read_deviceinfo v dec realms (Some (earlier @ line # later)) device = (Inr r, log)"
    and "valid_line (clean line)"
    and "\<forall>l\<in>set earlier. valid_line (clean l) \<longrightarrow> device_id (clean l) \<noteq> device"
  shows "(\<forall>l\<in>set (earlier @ [line]). valid_line (clean l) \<longrightarrow>
            (\<exists>dl. resolve_line v dec realms (clean l) = (Inr dl, literal_fields (clean l)))) \<and>
         (\<exists>after. log = concat (map (\<lambda>l. literal_fields (clean l))
                                   (filter (\<lambda>l. valid_line (clean l)) (earlier @ [line]))) @ after \<and>
                  (device_id (clean line) = device \<longrightarrow> after = []))"
proof -
  let ?pre = "concat (map (\<lambda>l. literal_fields (clean l)) (filter (\<lambda>l. valid_line (clean l)) earlier))"
  from assms(1) have "scan_devices v dec realms device (earlier @ line # later) 22 [] = (Inr r, log)"
    by (simp add: read_deviceinfo_def)
  from scan_devices_earlier [OF assms(3) this]
  obtain p' where earlier: "\<forall>l\<in>set earlier. valid_line (clean l) \<longrightarrow>
            (\<exists>dl. resolve_line v dec realms (clean l) = (Inr dl, literal_fields (clean l)))"
    and rest: "scan_devices v dec realms device (line # later) p' ?pre = (Inr r, log)"
    by auto
  obtain rl c where rl: "resolve_line v dec realms (clean line) = (rl, c)"
    by (cases "resolve_line v dec realms (clean line)")
  from rest assms(2) rl obtain dl where dl: "rl = Inr dl"
    by (cases rl) auto
  from resolve_line_Inr [of v dec realms "clean line" dl c] rl dl
  have cd: "curdevice dl = device_id (clean line)" and c: "c = literal_fields (clean line)"
    by simp_all
  have "\<exists>after. log = (?pre @ c) @ after \<and> (device_id (clean line) = device \<longrightarrow> after = [])"
  proof (cases "curdevice dl = device")
    case True
    with rest assms(2) rl dl have "log = ?pre @ c" by (auto split: if_splits)
    then show ?thesis by simp
  next
    case False
    with rest assms(2) rl dl
    have "scan_devices v dec realms device later (port dl) (?pre @ c) = (Inr r, log)" by simp
    from scan_devices_calls_prefix [OF this] False cd show ?thesis by auto
  qed
  with earlier rl dl c assms(2) show ?thesis by auto
qed

theorem earlier_lines_resolved_first_witness:
  "read_deviceinfo Pwdecrypt sample_decrypt []
     (Some ([''# devices\<newline>''] @ ''r0;10.0.0.9;ios;admin;ENC;ENC\<newline>'' #
            [''r1;;ios;admin;ENC;ENC;2222\<newline>''])) ''r1'' =
     (Inr (Credentials \<lparr>username = ''admin'', password = ''pw'', secret = ''pw'', ip = ''r1'',
             global_delay_factor = 3, device_type = ''ios''\<rparr>, 2222),
      [''ENC'', ''ENC'', ''ENC'', ''ENC'']) \<and>
   valid_line (clean ''r0;10.0.0.9;ios;admin;ENC;ENC\<newline>'') \<and>
   \<not> valid_line (clean ''# devices\<newline>'') \<and>
   (\<exists>dl. resolve_line Pwdecrypt sample_decrypt [] (clean ''r0;10.0.0.9;ios;admin;ENC;ENC\<newline>'') =
           (Inr dl, literal_fields (clean ''r0;10.0.0.9;ios;admin;ENC;ENC\<newline>''))) \<and>
   literal_fields (clean ''r0;10.0.0.9;ios;admin;ENC;ENC\<newline>'') = [''ENC'', ''ENC'']"
proof -
  have a: "read_deviceinfo Pwdecrypt sample_decrypt []
     (Some ([''# devices\<newline>''] @ ''r0;10.0.0.9;ios;admin;ENC;ENC\<newline>'' #
            [''r1;;ios;admin;ENC;ENC;2222\<newline>''])) ''r1'' =
     (Inr (Credentials \<lparr>username = ''admin'', password = ''pw'', secret = ''pw'', ip = ''r1'',
             global_delay_factor = 3, device_type = ''ios''\<rparr>, 2222),
      [''ENC'', ''ENC'', ''ENC'', ''ENC''])"
    by code_simp
  have b: "valid_line (clean ''r0;10.0.0.9;ios;admin;ENC;ENC\<newline>'')" by code_simp
  have c: "\<forall>l\<in>set [''# devices\<newline>'']. valid_line (clean l) \<longrightarrow> device_id (clean l) \<noteq> ''r1''"
    by code_simp
  have d: "literal_fields (clean ''r0;10.0.0.9;ios;admin;ENC;ENC\<newline>'') = [''ENC'', ''ENC'']"
    by code_simp
  from earlier_lines_resolved_first [OF a b c]
  have every: "\<forall>l\<in>set ([''# devices\<newline>''] @ [''r0;10.0.0.9;ios;admin;ENC;ENC\<newline>'']).
      valid_line (clean l) \<longrightarrow>
      (\<exists>dl. resolve_line Pwdecrypt sample_decrypt [] (clean l) = (Inr dl, literal_fields (clean l)))"
    by (rule conjunct1)
  have mem: "''r0;10.0.0.9;ios;admin;ENC;ENC\<newline>'' \<in>
      set ([''# devices\<newline>''] @ [''r0;10.0.0.9;ios;admin;ENC;ENC\<newline>''])"
    by simp
  have "\<exists>dl. resolve_line Pwdecrypt sample_decrypt [] (clean ''r0;10.0.0.9;ios;admin;ENC;ENC\<newline>'') =
           (Inr dl, literal_fields (clean ''r0;10.0.0.9;ios;admin;ENC;ENC\<newline>''))"
    by (rule mp [OF bspec [OF every mem] b])
  moreover have "\<not> valid_line (clean ''# devices\<newline>'')" by code_simp
  ultimately show ?thesis using a b d by blast
qed

section \<open>Properties of the console automation\<close>

text \<open>
  C6: only the retry loop catches the decoding failure. Bytes that do not decode end
  \<open>receive\<close> and \<open>connect\<close> in \<open>UnicodeDecodeError\<close> when they arrive at a banner poll, at
  the read after the password, or at the read after \<open>disco 1\<close>; in the retry loop they
  become the placeholder text.
\<close>

theorem decode_failure_aborts:
  "receive (script [Ready Undecodable]) \<lparr>clock = 0, sent = []\<rparr> command pw =
     (Inl UnicodeDecodeError, \<lparr>clock = 1, sent = [command @ nl]\<rparr>) \<and>
   fst (connect (script [Ready Undecodable]) hostname uname pw line) =
     Inl UnicodeDecodeError \<and>
   fst (connect (script [Ready (Text ''Password:''), Ready Undecodable]) hostname uname pw line) =
     Inl UnicodeDecodeError \<and>
   fst (connect (script [Ready (Text ''User Access''), NotReady, NotReady,
                         Ready (Text ''login:''), Ready Undecodable]) hostname uname pw line) =
     Inl UnicodeDecodeError \<and>
   fst (receive (script [Ready (Text ''User Access''), NotReady, NotReady,
                         Ready Undecodable, Ready (Text ''login:'')])
          \<lparr>clock = 0, sent = []\<rparr> command pw) =
     Inr (placeholder @ ''login:'')"
  by code_simp

lemma answers_append:
  "answers dev c (ps @ qs) = (answers dev c ps \<and> answers dev (c + length ps) qs)"
  by (induction ps arbitrary: c) auto

lemma banner_loop_round:
  assumes "round_ok r" "answers dev (clock ch) (round_polls r)"
  shows "banner_loop dev pw (Suc n) banner ch =
         banner_loop dev pw n (banner @ round_text r)
           \<lparr>clock = clock ch + length (round_polls r), sent = sent ch @ round_sent pw r\<rparr>"
proof (cases r)
  case Silent
  with assms show ?thesis by (cases ch) (simp add: recv_def)
next
  case (Heard t)
  with assms show ?thesis by (cases ch) (simp add: recv_def)
next
  case (Prompted t u)
  with assms show ?thesis by (cases ch; cases u) (simp_all add: recv_def send_def)
qed

lemma banner_loop_rounds:
  assumes "list_all round_ok rs" "length rs \<le> n"
    and "answers dev (clock ch) (concat (map round_polls rs))"
  shows "banner_loop dev pw n banner ch =
         banner_loop dev pw (n - length rs) (banner @ concat (map round_text rs))
           \<lparr>clock = clock ch + length (concat (map round_polls rs)),
            sent = sent ch @ concat (map (round_sent pw) rs)\<rparr>"
  using assms
proof (induction rs arbitrary: n banner ch)
  case Nil
  then show ?case by (cases ch) simp
next
  case (Cons r rs)
  from Cons.prems(2) obtain m where n: "n = Suc m" and m: "length rs \<le> m"
    by (cases n) auto
  let ?ch = "\<lparr>clock = clock ch + length (round_polls r), sent = sent ch @ round_sent pw r\<rparr>"
  from Cons.prems have r: "round_ok r" "answers dev (clock ch) (round_polls r)"
    and rs: "list_all round_ok rs" "answers dev (clock ?ch) (concat (map round_polls rs))"
    by (simp_all add: answers_append)
  have "banner_loop dev pw n banner ch = banner_loop dev pw m (banner @ round_text r) ?ch"
    unfolding n using r by (rule banner_loop_round)
  also have "\<dots> = banner_loop dev pw (m - length rs)
        ((banner @ round_text r) @ concat (map round_text rs))
        \<lparr>clock = clock ?ch + length (concat (map round_polls rs)),
         sent = sent ?ch @ concat (map (round_sent pw) rs)\<rparr>"
    using rs(1) m rs(2) by (rule Cons.IH)
  finally show ?case by (simp add: n add.assoc)
qed

lemma is_in_nonempty: "is_in (c # cs) s \<Longrightarrow> s \<noteq> []"
  by (cases s) auto

text \<open>
  C9, as the claim states it, fails: the banner comes to contain \<open>Connection\<close> within
  the first two polls, in two chunks; the test looks at each chunk alone, the retry loop
  runs and the disconnect is sent.
\<close>

theorem connection_in_two_chunks:
  "is_in ''Connection'' (''Conn'' @ ''ection refused'') \<and>
   connect (script [Ready (Text ''Conn''), Ready (Text ''ection refused''), NotReady,
                    Ready (Text ''console>'')]) ''10.0.0.1'' ''admin'' ''pw'' ''2005'' =
     (Inr ''console>'',
      \<lparr>clock = 8,
       sent = [''ssh -p 2005 10.0.0.1\<newline>'', ''\<newline>'', escape, ''disco 1\<newline>'']\<rparr>)"
  by code_simp

text \<open>
  C9, amended: when a chunk received at one of the three banner polls itself contains
  \<open>Connection\<close>, the rounds before it having received nothing or text without
  \<open>Connection\<close>, \<open>connect\<close> returns this chunk at that poll. Nothing was sent but the
  command and, after each password prompt, the password: no newline of the retry loop,
  no escape sequence, no \<open>disco 1\<close>.
\<close>

theorem connection_chunk_ends_line:
  assumes "list_all round_ok rs" "length rs < 3"
    and "answers dev 0 (concat (map round_polls rs) @ [Ready (Text buffer)])"
    and "is_in ''Connection'' buffer"
  shows "connect dev hostname uname pw line =
         (Inr buffer,
          \<lparr>clock = Suc (length (concat (map round_polls rs))),
           sent = (''ssh -p '' @ line @ '' '' @ hostname @ nl) # concat (map (round_sent pw) rs)\<rparr>)"
proof -
  let ?cmd = "''ssh -p '' @ line @ '' '' @ hostname"
  let ?ch0 = "send (?cmd @ nl) \<lparr>clock = 0, sent = []\<rparr>"
  let ?k = "length (concat (map round_polls rs))"
  let ?ch1 = "\<lparr>clock = ?k, sent = (?cmd @ nl) # concat (map (round_sent pw) rs)\<rparr>"
  from assms(3) have pre: "answers dev (clock ?ch0) (concat (map round_polls rs))"
    and last: "dev ?k = Ready (Text buffer)"
    by (simp_all add: answers_append send_def)
  from assms(2) obtain m where m: "3 - length rs = Suc m" by (cases "3 - length rs") auto
  have "banner_loop dev pw 3 [] ?ch0 =
        banner_loop dev pw (3 - length rs) ([] @ concat (map round_text rs))
          \<lparr>clock = clock ?ch0 + ?k, sent = sent ?ch0 @ concat (map (round_sent pw) rs)\<rparr>"
    using assms(1) _ pre by (rule banner_loop_rounds) (use assms(2) in simp)
  also have "\<dots> = (Inr (Return buffer), ?ch1\<lparr>clock := Suc ?k\<rparr>)"
    unfolding m using last assms(4) by (simp add: recv_def send_def)
  finally have b: "banner_loop dev pw 3 [] ?ch0 = (Inr (Return buffer), ?ch1\<lparr>clock := Suc ?k\<rparr>)" .
  have r: "receive dev \<lparr>clock = 0, sent = []\<rparr> ?cmd pw = (Inr buffer, ?ch1\<lparr>clock := Suc ?k\<rparr>)"
    unfolding receive_def b by simp
  from assms(4) have "buffer \<noteq> []" by (rule is_in_nonempty)
  with r assms(4) show ?thesis by (simp add: connect_def)
qed

theorem connection_chunk_ends_line_witness:
  "list_all round_ok [Silent, Prompted ''Password:'' None] \<and>
   length [Silent, Prompted ''Password:'' None] < 3 \<and>
   answers (script [NotReady, Ready (Text ''Password:''), NotReady,
                    Ready (Text ''Connection refused by remote host'')]) 0
     (concat (map round_polls [Silent, Prompted ''Password:'' None]) @
      [Ready (Text ''Connection refused by remote host'')]) \<and>
   is_in ''Connection'' ''Connection refused by remote host'' \<and>
   connect (script [NotReady, Ready (Text ''Password:''), NotReady,
                    Ready (Text ''Connection refused by remote host'')])
     ''10.0.0.1'' ''admin'' ''pw'' ''2005'' =
     (Inr ''Connection refused by remote host'',
      \<lparr>clock = 4, sent = [''ssh -p 2005 10.0.0.1\<newline>'', ''pw\<newline>'']\<rparr>)"
proof -
  have a: "list_all round_ok [Silent, Prompted ''Password:'' None]" by code_simp
  have b: "length [Silent, Prompted ''Password:'' None] < 3" by simp
  have c: "answers (script [NotReady, Ready (Text ''Password:''), NotReady,
                    Ready (Text ''Connection refused by remote host'')]) 0
     (concat (map round_polls [Silent, Prompted ''Password:'' None]) @
      [Ready (Text ''Connection refused by remote host'')])"
    by code_simp
  have d: "is_in ''Connection'' ''Connection refused by remote host''" by code_simp
  have "connect (script [NotReady, Ready (Text ''Password:''), NotReady,
                    Ready (Text ''Connection refused by remote host'')])
     ''10.0.0.1'' ''admin'' ''pw'' ''2005'' =
     (Inr ''Connection refused by remote host'',
      \<lparr>clock = 4, sent = [''ssh -p 2005 10.0.0.1\<newline>'', ''pw\<newline>'']\<rparr>)"
    using connection_chunk_ends_line [OF a b c d, of "''10.0.0.1''" "''admin''" "''pw''" "''2005''"]
    by (simp add: nl_def)
  with a b c d show ?thesis by blast
qed

lemma heard_same: "heard dev c c = []"
  by (simp add: heard_def)

lemma heard_first: "c < c' \<Longrightarrow> heard dev c c' = poll_text (dev c) @ heard dev (Suc c) c'"
  by (simp add: heard_def upt_conv_Cons)

lemma heard_split: "c \<le> m \<Longrightarrow> m \<le> c' \<Longrightarrow> heard dev c c' = heard dev c m @ heard dev m c'"
proof -
  assume "c \<le> m" "m \<le> c'"
  then obtain d where "c' = m + d" by (auto simp: le_iff_add)
  with \<open>c \<le> m\<close> show ?thesis by (simp add: heard_def upt_add_eq_append [of c m d])
qed

lemma retry_polls_run:
  assumes "retry_polls dev n acc ch = (r, ch')"
  shows "sent ch' = sent ch \<and> clock ch \<le> clock ch' \<and> clock ch' \<le> clock ch + n \<and>
         exit_text r = acc @ heard dev (clock ch) (clock ch') \<and>
         (\<forall>j. clock ch < j \<and> j < clock ch' \<longrightarrow>
              \<not> is_in ''ogin:'' (acc @ heard dev (clock ch) j)) \<and>
         (case r of
            Return out \<Rightarrow> is_in ''ogin:'' out
          | Continue out \<Rightarrow> clock ch' = clock ch + n \<and> (0 < n \<longrightarrow> \<not> is_in ''ogin:'' out))"
  using assms
proof (induction n arbitrary: acc ch)
  case 0
  then show ?case by (auto simp: heard_same)
next
  case (Suc n)
  let ?c = "clock ch"
  let ?out1 = "acc @ poll_text (dev ?c)"
  let ?ch1 = "ch\<lparr>clock := Suc ?c\<rparr>"
  have step: "retry_polls dev (Suc n) acc ch =
      (if is_in ''ogin:'' ?out1 then (Return ?out1, ?ch1) else retry_polls dev n ?out1 ?ch1)"
    by (cases "dev ?c") (simp_all add: recv_def poll_text_def Let_def)
  have one: "heard dev ?c (Suc ?c) = poll_text (dev ?c)"
    by (simp add: heard_first heard_same)
  show ?case
  proof (cases "is_in ''ogin:'' ?out1")
    case True
    with Suc.prems step have r: "r = Return ?out1" and ch': "ch' = ?ch1" by simp_all
    have "\<forall>j. ?c < j \<and> j < clock ch' \<longrightarrow> \<not> is_in ''ogin:'' (acc @ heard dev ?c j)"
      unfolding ch' by auto
    moreover have "exit_text r = acc @ heard dev ?c (clock ch')"
      unfolding r ch' by (simp add: one)
    moreover have "sent ch' = sent ch" "?c \<le> clock ch'" "clock ch' \<le> ?c + Suc n"
      unfolding ch' by simp_all
    moreover have "case r of Return out \<Rightarrow> is_in ''ogin:'' out
          | Continue out \<Rightarrow> clock ch' = ?c + Suc n \<and> (0 < Suc n \<longrightarrow> \<not> is_in ''ogin:'' out)"
      unfolding r using True by simp
    ultimately show ?thesis by (intro conjI)
  next
    case False
    with Suc.prems step have rec: "retry_polls dev n ?out1 ?ch1 = (r, ch')" by simp
    note IH = Suc.IH [OF rec]
    from IH have s: "sent ch' = sent ch" by simp
    from IH have le: "Suc ?c \<le> clock ch'" by simp
    from IH have ge: "clock ch' \<le> Suc ?c + n" by simp
    from IH have tx: "exit_text r = ?out1 @ heard dev (Suc ?c) (clock ch')" by simp
    from IH have ny: "\<forall>j. Suc ?c < j \<and> j < clock ch' \<longrightarrow>
        \<not> is_in ''ogin:'' (?out1 @ heard dev (Suc ?c) j)" by simp
    from IH have fin: "case r of Return out \<Rightarrow> is_in ''ogin:'' out
          | Continue out \<Rightarrow> clock ch' = Suc ?c + n \<and> (0 < n \<longrightarrow> \<not> is_in ''ogin:'' out)"
      by (cases r) simp_all
    have join: "?out1 @ heard dev (Suc ?c) j = acc @ heard dev ?c j" if "?c < j" for j
      using that by (simp add: heard_first)
    have notyet: "\<forall>j. ?c < j \<and> j < clock ch' \<longrightarrow> \<not> is_in ''ogin:'' (acc @ heard dev ?c j)"
    proof (intro allI impI)
      fix j assume j: "?c < j \<and> j < clock ch'"
      show "\<not> is_in ''ogin:'' (acc @ heard dev ?c j)"
      proof (cases "j = Suc ?c")
        case True
        with False one show ?thesis by simp
      next
        case False
        with j have "Suc ?c < j \<and> j < clock ch'" by simp
        with ny have "\<not> is_in ''ogin:'' (?out1 @ heard dev (Suc ?c) j)" by blast
        moreover from j have "?out1 @ heard dev (Suc ?c) j = acc @ heard dev ?c j"
          by (intro join) simp
        ultimately show ?thesis by simp
      qed
    qed
    have last: "case r of Return out \<Rightarrow> is_in ''ogin:'' out
          | Continue out \<Rightarrow> clock ch' = ?c + Suc n \<and> (0 < Suc n \<longrightarrow> \<not> is_in ''ogin:'' out)"
    proof (cases r)
      case (Return out)
      with fin show ?thesis by simp
    next
      case (Continue out)
      show ?thesis
      proof (cases n)
        case 0
        with rec Continue have "out = ?out1" "ch' = ?ch1" by simp_all
        with False Continue 0 show ?thesis by simp
      next
        case (Suc m)
        with fin Continue show ?thesis by simp
      qed
    qed
    from le have "?out1 @ heard dev (Suc ?c) (clock ch') = acc @ heard dev ?c (clock ch')"
      by (intro join) simp
    with tx have "exit_text r = acc @ heard dev ?c (clock ch')" by simp
    moreover from le have "?c \<le> clock ch'" by simp
    moreover from ge have "clock ch' \<le> ?c + Suc n" by simp
    moreover note s notyet last
    ultimately show ?thesis by (intro conjI)
  qed
qed


lemma retry_loop_stop:
  "\<not> (tries < 6 \<and> acc = []) \<Longrightarrow> retry_loop dev tries acc ch = (acc, ch)"
  by (subst retry_loop.simps) auto

lemma retry_loop_step:
  "tries < 6 \<Longrightarrow> retry_polls dev 3 [] (send nl ch) = (r, ch1) \<Longrightarrow>
   retry_loop dev tries [] ch =
     (case r of Return o1 \<Rightarrow> (o1, ch1) | Continue o1 \<Rightarrow> retry_loop dev (Suc tries) o1 ch1)"
  by (subst retry_loop.simps) (simp split: exit.splits)

lemma retry_loop_run:
  assumes "retry_loop dev tries acc ch = (out, ch')" "d = 6 - tries" "tries \<le> 6"
  shows "\<exists>k. k \<le> 6 - tries \<and> sent ch' = sent ch @ replicate k nl \<and>
           clock ch \<le> clock ch' \<and> clock ch' \<le> clock ch + 3 * k \<and>
           out = acc @ heard dev (clock ch) (clock ch') \<and>
           (acc \<noteq> [] \<longrightarrow> k = 0) \<and>
           (acc = [] \<and> tries < 6 \<longrightarrow>
              1 \<le> k \<and> heard dev (clock ch) (clock ch + 3 * (k - 1)) = []) \<and>
           (\<forall>j. clock ch < j \<and> j < clock ch' \<longrightarrow>
                \<not> is_in ''ogin:'' (acc @ heard dev (clock ch) j)) \<and>
           (\<not> is_in ''ogin:'' out \<longrightarrow>
              clock ch' = clock ch + 3 * k \<and> (k = 6 - tries \<or> out \<noteq> []))"
  using assms
proof (induction d arbitrary: tries acc ch)
  case 0
  then have "\<not> (tries < 6 \<and> acc = [])" by simp
  from retry_loop_stop [OF this] 0(1) have "out = acc" "ch' = ch" by simp_all
  with 0 show ?case by (intro exI [of _ 0]) (auto simp: heard_same)
next
  case (Suc d)
  then have t: "tries < 6" by simp
  let ?c = "clock ch"
  show ?case
  proof (cases "acc = []")
    case False
    then have "\<not> (tries < 6 \<and> acc = [])" by simp
    from retry_loop_stop [OF this] Suc.prems(1) have "out = acc" "ch' = ch" by simp_all
    with False show ?thesis by (intro exI [of _ 0]) (auto simp: heard_same)
  next
    case True
    obtain r ch1 where rp: "retry_polls dev 3 [] (send nl ch) = (r, ch1)"
      by (cases "retry_polls dev 3 [] (send nl ch)")
    note run = retry_polls_run [OF rp]
    from run have s1: "sent ch1 = sent ch @ [nl]" by (simp add: send_def)
    from run have lo: "?c \<le> clock ch1" and hi: "clock ch1 \<le> ?c + 3" by (simp_all add: send_def)
    from run have tx: "exit_text r = heard dev ?c (clock ch1)" by (simp add: send_def)
    from run have ny: "\<forall>j. ?c < j \<and> j < clock ch1 \<longrightarrow> \<not> is_in ''ogin:'' (heard dev ?c j)"
      by (simp add: send_def)
    from run have fin: "case r of Return o1 \<Rightarrow> is_in ''ogin:'' o1
          | Continue o1 \<Rightarrow> clock ch1 = ?c + 3 \<and> \<not> is_in ''ogin:'' o1"
      by (cases r) (simp_all add: send_def)
    show ?thesis
    proof (cases r)
      case (Return o1)
      with retry_loop_step [OF t rp] Suc.prems(1) True have "out = o1" "ch' = ch1" by simp_all
      with Return s1 lo hi tx ny fin t True show ?thesis
        by (intro exI [of _ 1]) (simp add: heard_same)
    next
      case (Continue o1)
      with fin have c1: "clock ch1 = ?c + 3" and no1: "\<not> is_in ''ogin:'' o1" by simp_all
      from Continue tx c1 have o1: "o1 = heard dev ?c (?c + 3)" by simp
      from retry_loop_step [OF t rp] Suc.prems(1) True Continue
      have rec: "retry_loop dev (Suc tries) o1 ch1 = (out, ch')" by simp
      from Suc.prems have "d = 6 - Suc tries" "Suc tries \<le> 6" by simp_all
      from Suc.IH [OF rec this] obtain k where
        k: "k \<le> 6 - Suc tries" and
        sk: "sent ch' = sent ch1 @ replicate k nl" and
        lok: "clock ch1 \<le> clock ch'" and hik: "clock ch' \<le> clock ch1 + 3 * k" and
        outk: "out = o1 @ heard dev (clock ch1) (clock ch')" and
        stopk: "o1 \<noteq> [] \<longrightarrow> k = 0" and
        quietk: "o1 = [] \<and> Suc tries < 6 \<longrightarrow>
                   1 \<le> k \<and> heard dev (clock ch1) (clock ch1 + 3 * (k - 1)) = []" and
        nyk: "\<forall>j. clock ch1 < j \<and> j < clock ch' \<longrightarrow>
                 \<not> is_in ''ogin:'' (o1 @ heard dev (clock ch1) j)" and
        fink: "\<not> is_in ''ogin:'' out \<longrightarrow>
                 clock ch' = clock ch1 + 3 * k \<and> (k = 6 - Suc tries \<or> out \<noteq> [])"
        by blast
      have whole: "o1 @ heard dev (clock ch1) j = heard dev ?c j" if "?c + 3 \<le> j" for j
        unfolding o1 c1 using that by (simp add: heard_split [of ?c "?c + 3" j])
      have a1: "Suc k \<le> 6 - tries" using k t by simp
      have a2: "sent ch' = sent ch @ replicate (Suc k) nl" using sk s1 by simp
      have a3: "?c \<le> clock ch'" using lo lok by simp
      have a4: "clock ch' \<le> ?c + 3 * Suc k" using hik c1 by simp
      have a5: "out = acc @ heard dev ?c (clock ch')"
        using outk whole [of "clock ch'"] lok c1 True by simp
      have a6: "acc \<noteq> [] \<longrightarrow> Suc k = 0" using True by simp
      have quiet: "heard dev ?c (?c + 3 * k) = []"
      proof (cases "k = 0")
        case True
        then show ?thesis by (simp add: heard_same)
      next
        case False
        with stopk have e: "o1 = []" by blast
        from False k have "Suc tries < 6" by simp
        with quietk e have q: "heard dev (clock ch1) (clock ch1 + 3 * (k - 1)) = []" by simp
        from False have "?c + 3 * k = clock ch1 + 3 * (k - 1)" using c1 by simp
        with whole [of "?c + 3 * k"] False e q show ?thesis by simp
      qed
      have a7: "acc = [] \<and> tries < 6 \<longrightarrow>
                  1 \<le> Suc k \<and> heard dev ?c (?c + 3 * (Suc k - 1)) = []"
        using quiet by simp
      have a8: "\<forall>j. ?c < j \<and> j < clock ch' \<longrightarrow> \<not> is_in ''ogin:'' (acc @ heard dev ?c j)"
      proof (intro allI impI)
        fix j assume j: "?c < j \<and> j < clock ch'"
        show "\<not> is_in ''ogin:'' (acc @ heard dev ?c j)"
        proof (cases "j < ?c + 3")
          case True
          with j c1 ny have "\<not> is_in ''ogin:'' (heard dev ?c j)" by simp
          with \<open>acc = []\<close> show ?thesis by simp
        next
          case False
          show ?thesis
          proof (cases "j = ?c + 3")
            case True
            with no1 o1 \<open>acc = []\<close> show ?thesis by simp
          next
            case neq: False
            with False j c1 have "clock ch1 < j \<and> j < clock ch'" by simp
            with nyk have "\<not> is_in ''ogin:'' (o1 @ heard dev (clock ch1) j)" by blast
            moreover from False have "o1 @ heard dev (clock ch1) j = heard dev ?c j"
              by (intro whole) simp
            ultimately show ?thesis using \<open>acc = []\<close> by simp
          qed
        qed
      qed
      have a9: "\<not> is_in ''ogin:'' out \<longrightarrow>
                  clock ch' = ?c + 3 * Suc k \<and> (Suc k = 6 - tries \<or> out \<noteq> [])"
        using fink c1 t by auto
      from a1 a2 a3 a4 a5 a6 a7 a8 a9 show ?thesis
        by (intro exI [of _ "Suc k"] conjI)
    qed
  qed
qed

text \<open>
  C2, as the claim states it, fails: the loop also ends when \<open>output\<close> is no longer empty.
  Here the first retry receives \<open>% Bad\<close>; the line ends without \<open>ogin:\<close> after this one
  retry, with one newline sent, and the login prompt that is ready next is never read.
\<close>

theorem timeout_after_one_retry:
  "receive (script [Ready (Text ''User Access Verification''), NotReady, NotReady,
                    Ready (Text ''% Bad''), NotReady, NotReady, Ready (Text ''login:'')])
     \<lparr>clock = 0, sent = []\<rparr> ''ssh -p 2005 10.0.0.1'' ''pw'' =
     (Inr ''% Bad'', \<lparr>clock = 6, sent = [''ssh -p 2005 10.0.0.1\<newline>'', ''\<newline>'']\<rparr>) \<and>
   \<not> is_in ''ogin:'' ''% Bad''"
  by code_simp

text \<open>
  C2, amended. The retry loop runs \<open>k\<close> rounds, one at least and six at most; each round
  sends one bare newline and polls up to three times. The output it returns is the
  concatenation, in arrival order, of the chunks received in the loop (the placeholder
  for a chunk that does not decode). It returns at the first poll after which the output
  contains \<open>ogin:\<close> (success). All rounds before the last received no text. It ends
  without \<open>ogin:\<close> (timeout) after full rounds only: after six rounds that received no
  text, or after the first round that received some.
\<close>

theorem retry_loop_outcome:
  assumes "retry_loop dev 0 [] ch = (out, ch')"
  shows "\<exists>k. 1 \<le> k \<and> k \<le> 6 \<and> sent ch' = sent ch @ replicate k nl \<and>
           clock ch \<le> clock ch' \<and> clock ch' \<le> clock ch + 3 * k \<and>
           out = heard dev (clock ch) (clock ch') \<and>
           heard dev (clock ch) (clock ch + 3 * (k - 1)) = [] \<and>
           (\<forall>j. clock ch < j \<and> j < clock ch' \<longrightarrow> \<not> is_in ''ogin:'' (heard dev (clock ch) j)) \<and>
           (\<not> is_in ''ogin:'' out \<longrightarrow>
              clock ch' = clock ch + 3 * k \<and> (k = 6 \<or> out \<noteq> []))"
proof -
  from retry_loop_run [OF assms, of 6] obtain k where
    "k \<le> 6 - 0" "sent ch' = sent ch @ replicate k nl"
    "clock ch \<le> clock ch'" "clock ch' \<le> clock ch + 3 * k"
    "out = [] @ heard dev (clock ch) (clock ch')"
    "[] = [] \<and> (0::nat) < 6 \<longrightarrow> 1 \<le> k \<and> heard dev (clock ch) (clock ch + 3 * (k - 1)) = []"
    "\<forall>j. clock ch < j \<and> j < clock ch' \<longrightarrow> \<not> is_in ''ogin:'' ([] @ heard dev (clock ch) j)"
    "\<not> is_in ''ogin:'' out \<longrightarrow> clock ch' = clock ch + 3 * k \<and> (k = 6 - 0 \<or> out \<noteq> [])"
    by auto
  then show ?thesis by (intro exI [of _ k]) simp
qed

theorem retry_loop_outcome_witness:
  "retry_loop (script [Ready (Text ''% Bad''), NotReady, NotReady, Ready (Text ''login:'')])
     0 [] \<lparr>clock = 0, sent = []\<rparr> = (''% Bad'', \<lparr>clock = 3, sent = [''\<newline>'']\<rparr>) \<and>
   (\<exists>k. 1 \<le> k \<and> k \<le> 6 \<and> [''\<newline>''] = replicate k nl \<and>
      ''% Bad'' = heard (script [Ready (Text ''% Bad''), NotReady, NotReady,
                                 Ready (Text ''login:'')]) 0 3 \<and>
      3 = 3 * k)"
proof -
  let ?dev = "script [Ready (Text ''% Bad''), NotReady, NotReady, Ready (Text ''login:'')]"
  have h: "retry_loop ?dev 0 [] \<lparr>clock = 0, sent = []\<rparr> =
      (''% Bad'', \<lparr>clock = 3, sent = [''\<newline>'']\<rparr>)"
    by code_simp
  have n: "\<not> is_in ''ogin:'' ''% Bad''" by code_simp
  from retry_loop_outcome [OF h] n
  have "\<exists>k. 1 \<le> k \<and> k \<le> 6 \<and> [''\<newline>''] = replicate k nl \<and>
      ''% Bad'' = heard ?dev 0 3 \<and> 3 = 3 * k"
    by auto
  with h show ?thesis by blast
qed

section \<open>Properties of the console lines\<close>

lemma split_from_spaces:
  "list_all is_space ws \<Longrightarrow> split_from [] (ws @ s) = split_from [] s"
  by (induction ws) simp_all

lemma split_from_column:
  "list_all (\<lambda>x. \<not> is_space x \<and> x \<noteq> CHR ''*'') col \<Longrightarrow>
   split_from cur (col @ s) = split_from (rev col @ cur) s"
  by (induction col arbitrary: cur) simp_all

lemma split_from_separator:
  "list_all is_space ws \<Longrightarrow> ws \<noteq> [] \<Longrightarrow> cur \<noteq> [] \<Longrightarrow>
   split_from cur (ws @ s) = rev cur # split_from [] s"
  by (cases ws) (simp_all add: split_from_spaces)

lemma split_from_trail:
  "list_all is_space trail \<Longrightarrow> cur \<noteq> [] \<Longrightarrow> split_from cur trail = [rev cur]"
  using split_from_separator [of trail cur "[]"] by (cases trail) simp_all

lemma split_from_cells:
  assumes "list_all cell_ok cells" "list_all (\<lambda>cell. fst cell \<noteq> []) cells"
    "list_all is_space trail" "cur \<noteq> []"
  shows "split_from cur (render cells @ trail) = rev cur # map snd cells"
  using assms
proof (induction cells arbitrary: cur)
  case Nil
  then show ?case by (simp add: split_from_trail)
next
  case (Cons cell cells)
  obtain sep col where cell: "cell = (sep, col)" by (cases cell)
  with Cons.prems have sep: "list_all is_space sep" "sep \<noteq> []"
    and col: "col \<noteq> []" "list_all (\<lambda>x. \<not> is_space x \<and> x \<noteq> CHR ''*'') col"
    by (simp_all add: cell_ok_def)
  have "split_from cur (render (cell # cells) @ trail) =
        rev cur # split_from [] (col @ render cells @ trail)"
    using split_from_separator [OF sep Cons.prems(4)] by (simp add: cell)
  also have "split_from [] (col @ render cells @ trail) = split_from (rev col) (render cells @ trail)"
    using split_from_column [OF col(2), of "[]"] by simp
  also have "\<dots> = rev (rev col) # map snd cells"
    using Cons.prems col(1) by (intro Cons.IH) simp_all
  finally show ?case by (simp add: cell)
qed

lemma split_ws_row:
  assumes "row_ok cells" "list_all is_space trail"
  shows "split_ws (render cells @ trail) = map snd cells"
proof (cases cells)
  case Nil
  with assms show ?thesis
    using split_from_spaces [of trail "[]"] by (simp add: split_ws_def)
next
  case (Cons cell rest)
  obtain sep col where cell: "cell = (sep, col)" by (cases cell)
  with Cons assms have sep: "list_all is_space sep"
    and col: "col \<noteq> []" "list_all (\<lambda>x. \<not> is_space x \<and> x \<noteq> CHR ''*'') col"
    and rest: "list_all cell_ok rest" "list_all (\<lambda>cell. fst cell \<noteq> []) rest"
    by (simp_all add: row_ok_def cell_ok_def)
  have "split_ws (render cells @ trail) = split_from [] (col @ render rest @ trail)"
    using split_from_spaces [OF sep] by (simp add: split_ws_def Cons cell)
  also have "\<dots> = split_from (rev col) (render rest @ trail)"
    using split_from_column [OF col(2), of "[]"] by simp
  also have "\<dots> = rev (rev col) # map snd rest"
    using rest assms(2) col(1) by (intro split_from_cells) simp_all
  finally show ?thesis by (simp add: Cons cell)
qed

lemma is_space_blank: "is_space CHR '' ''"
  by (simp add: is_space_def)

lemma split_from_replace: "split_from cur (replace s ''  '' '' '') = split_from cur s"
proof (induction "length s" arbitrary: s cur rule: less_induct)
  case less
  show ?case
  proof (cases "prefix ''  '' s")
    case True
    then obtain t where s: "s = CHR '' '' # CHR '' '' # t" by (auto simp: prefix_def)
    have "replace s ''  '' '' '' = CHR '' '' # replace t ''  '' '' ''"
      unfolding s by (subst replace.simps) simp
    moreover have "split_from [] (replace t ''  '' '' '') = split_from [] t"
      by (rule less) (simp add: s)
    ultimately show ?thesis by (simp add: s is_space_blank)
  next
    case False
    show ?thesis
    proof (cases s)
      case Nil
      then show ?thesis by (subst replace.simps) simp
    next
      case (Cons c cs)
      with False have r: "replace s ''  '' '' '' = c # replace cs ''  '' '' ''"
        by (subst replace.simps) auto
      have "split_from cur' (replace cs ''  '' '' '') = split_from cur' cs" for cur'
        by (rule less) (simp add: Cons)
      with r show ?thesis by (simp add: Cons)
    qed
  qed
qed

lemma split_ws_collapse: "split_ws (collapse s) = split_ws s"
proof (induction s rule: collapse.induct)
  case (1 txtline)
  show ?case
  proof (cases "is_in ''  '' txtline")
    case True
    with 1 have "split_ws (collapse (replace txtline ''  '' '' '')) =
        split_ws (replace txtline ''  '' '' '')" by simp
    with True show ?thesis
      by (subst collapse.simps) (simp add: split_ws_def split_from_replace)
  next
    case False
    then show ?thesis by (subst collapse.simps) simp
  qed
qed

lemma is_in_single: "is_in [c] s = (c \<in> set s)"
  by (induction s) auto

lemma not_space_star: "\<not> is_space CHR ''*''"
  by (simp add: is_space_def)

lemma star_free_render:
  "list_all cell_ok cells \<Longrightarrow> CHR ''*'' \<notin> set (render cells)"
proof (induction cells)
  case Nil
  then show ?case by simp
next
  case (Cons cell cells)
  obtain sep col where cell: "cell = (sep, col)" by (cases cell)
  with Cons.prems have "list_all is_space sep" "list_all (\<lambda>x. \<not> is_space x \<and> x \<noteq> CHR ''*'') col"
    by (simp_all add: cell_ok_def)
  then have "CHR ''*'' \<notin> set sep" "CHR ''*'' \<notin> set col"
    using not_space_star by (auto simp: list_all_iff)
  with Cons cell show ?case by simp
qed

lemma lstrip_spaces: "list_all is_space ws \<Longrightarrow> lstrip (ws @ s) = lstrip s"
  by (simp add: lstrip_def list_all_iff)

lemma marked_row:
  assumes "list_all is_space lead" "list_all is_space trail" "row_ok cells"
  shows "(let txtline = lstrip (lead @ ''*'' @ render cells @ trail)
          in if startswith txtline ''*'' then replace txtline ''*'' [] else txtline) =
         render cells @ trail"
proof -
  have l: "lstrip (lead @ ''*'' @ render cells @ trail) = CHR ''*'' # render cells @ trail"
    using assms(1) not_space_star by (simp add: lstrip_spaces) (simp add: lstrip_def)
  from assms have "CHR ''*'' \<notin> set (render cells @ trail)"
    using star_free_render [of cells] not_space_star by (auto simp: row_ok_def list_all_iff)
  then have "\<not> is_in ''*'' (render cells @ trail)" by (simp add: is_in_single)
  then have "replace (render cells @ trail) ''*'' [] = render cells @ trail"
    by (intro replace_absent) simp_all
  then have "replace (CHR ''*'' # render cells @ trail) ''*'' [] = render cells @ trail"
    by (subst replace.simps) simp
  with l show ?thesis by (simp add: startswith_def)
qed

lemma plain_row:
  assumes "list_all is_space lead" "row_ok ((sep, col) # rest)"
  shows "(let txtline = lstrip (lead @ render ((sep, col) # rest) @ trail)
          in if startswith txtline ''*'' then replace txtline ''*'' [] else txtline) =
         render (([], col) # rest) @ trail"
proof -
  from assms(2) have sep: "list_all is_space sep" and col: "col \<noteq> []"
    "list_all (\<lambda>x. \<not> is_space x \<and> x \<noteq> CHR ''*'') col"
    by (simp_all add: row_ok_def cell_ok_def)
  from col obtain c cs where c: "col = c # cs" "\<not> is_space c" "c \<noteq> CHR ''*''"
    by (cases col) auto
  have "lstrip (lead @ render ((sep, col) # rest) @ trail) = lstrip (col @ render rest @ trail)"
    using lstrip_spaces [OF assms(1)] lstrip_spaces [OF sep] by simp
  also have "\<dots> = col @ render rest @ trail"
    using c by (simp add: lstrip_def)
  finally show ?thesis using c by (simp add: startswith_def)
qed

lemma row_columns:
  assumes "list_all is_space lead" "list_all is_space trail" "row_ok cells" "cells \<noteq> []"
  shows "split_ws (collapse
           (let txtline = lstrip (lead @ (if active then ''*'' else []) @ render cells @ trail)
            in if startswith txtline ''*'' then replace txtline ''*'' [] else txtline)) =
         map snd cells"
proof (cases active)
  case True
  with marked_row [OF assms(1-3)] assms(2,3) show ?thesis
    by (simp add: split_ws_collapse split_ws_row)
next
  case False
  from assms(4) obtain sep col rest where cells: "cells = (sep, col) # rest"
    by (cases cells) auto
  from assms(3) have "row_ok (([], col) # rest)"
    by (simp add: cells row_ok_def cell_ok_def)
  from split_ws_row [OF this assms(2)] False plain_row [OF assms(1) assms(3) [unfolded cells]]
  show ?thesis by (simp add: cells split_ws_collapse)
qed

lemma py_index_nat: "n < length xs \<Longrightarrow> py_index xs (int n) = Some (xs ! n)"
  by (simp add: py_index_def)

text \<open>
  C7: a row of the line table, in the text of the device: optional leading whitespace,
  optionally the marker \<open>*\<close> of the line in use, then at least seven columns separated by
  whitespace; the rotary column is the seventh from the end, the line number the second
  column. The row yields the line id \<open>str(2000 + rotary index)\<close>, where a rotary column
  \<open>-\<close> stands for the line number, with the interface \<open>As\<close> and the first column; and it
  yields no entry when this interface name holds no \<open>/\<close>.
\<close>

theorem line_id_is_offset_plus_rotary:
  assumes "txtline = lead @ (if active then ''*'' else []) @ render cells @ trail"
    and "list_all is_space lead" "list_all is_space trail" "row_ok cells"
    and "cols = map snd cells" "7 \<le> length cols"
    and "is_in ''TTY'' txtline"
    and "roty = cols ! (length cols - 7)"
    and "py_int (if roty = ''-'' then cols ! 1 else roty) = Some rotynum"
  shows "show_line_row txtline =
           Inr (if is_in ''/'' (''As'' @ cols ! 0)
                then Some (py_str (2000 + rotynum), ''As'' @ cols ! 0) else None)"
proof -
  from assms(5,6) have ne: "cells \<noteq> []" by auto
  have data: "split_ws (collapse
           (let t = lstrip txtline
            in if startswith t ''*'' then replace t ''*'' [] else t)) = cols"
    unfolding assms(1,5) using assms(2,3,4) ne by (rule row_columns)
  have i0: "py_index cols 0 = Some (cols ! 0)"
    using assms(6) by (auto simp: py_index_def)
  have i1: "py_index cols 1 = Some (cols ! 1)"
    using assms(6) by (auto simp: py_index_def)
  have "int (length cols) - 7 = int (length cols - 7)" using assms(6) by simp
  then have ir: "py_index cols (int (length cols) - 7) = Some roty"
    using py_index_nat [of "length cols - 7" cols] assms(6,8) by simp
  from data have data': "split_ws (collapse
      (if startswith (lstrip txtline) ''*'' then replace (lstrip txtline) ''*'' []
       else lstrip txtline)) = cols"
    by (simp add: Let_def)
  show ?thesis
    unfolding show_line_row_def Let_def data'
    using assms(7,9) i0 i1 ir by (cases "roty = ''-''") (simp_all add: offset_def)
qed

theorem line_id_is_offset_plus_rotary_witness:
  "row_ok [(''    '', ''0/0/5''), (''      '', ''5''), ('' '', ''TTY''), (''   '', ''9600/9600''), (''  '', ''-''), (''    '', ''-''), (''      '', ''-''), (''    '', ''-''), (''    '', ''-''), (''     '', ''0''), (''      '', ''0''), (''    '', ''0/0''), (''      '', ''-'')] \<and>
   is_in ''TTY'' ''    0/0/5      5 TTY   9600/9600  -    -      -    -    -     0      0    0/0      -'' \<and>
   [''0/0/5'', ''5'', ''TTY'', ''9600/9600'', ''-'', ''-'', ''-'', ''-'', ''-'', ''0'', ''0'', ''0/0'', ''-''] ! (length [''0/0/5'', ''5'', ''TTY'', ''9600/9600'', ''-'', ''-'', ''-'', ''-'', ''-'', ''0'', ''0'', ''0/0'', ''-''] - 7) = ''-'' \<and>
   [''0/0/5'', ''5'', ''TTY'', ''9600/9600'', ''-'', ''-'', ''-'', ''-'', ''-'', ''0'', ''0'', ''0/0'', ''-''] ! 1 = ''5'' \<and>
   show_line_row ''    0/0/5      5 TTY   9600/9600  -    -      -    -    -     0      0    0/0      -'' = Inr (Some (''2005'', ''As0/0/5''))"
proof -
  let ?cells = "[(''    '', ''0/0/5''), (''      '', ''5''), ('' '', ''TTY''), (''   '', ''9600/9600''), (''  '', ''-''), (''    '', ''-''), (''      '', ''-''), (''    '', ''-''), (''    '', ''-''), (''     '', ''0''), (''      '', ''0''), (''    '', ''0/0''), (''      '', ''-'')]"
  let ?cols = "[''0/0/5'', ''5'', ''TTY'', ''9600/9600'', ''-'', ''-'', ''-'', ''-'', ''-'', ''0'', ''0'', ''0/0'', ''-'']"
  have a: "''    0/0/5      5 TTY   9600/9600  -    -      -    -    -     0      0    0/0      -'' = [] @ (if False then ''*'' else []) @ render ?cells @ []" by simp
  have b: "list_all is_space []" by simp
  have c: "row_ok ?cells" by code_simp
  have d: "?cols = map snd ?cells" by simp
  have e: "7 \<le> length ?cols" by simp
  have f: "is_in ''TTY'' ''    0/0/5      5 TTY   9600/9600  -    -      -    -    -     0      0    0/0      -''" by code_simp
  have g: "''-'' = ?cols ! (length ?cols - 7)" by simp
  have h: "py_int (if ''-'' = ''-'' then ?cols ! 1 else ''-'') = Some 5" by code_simp
  have i: "(if is_in ''/'' (''As'' @ ?cols ! 0)
            then Some (py_str (2000 + 5), ''As'' @ ?cols ! 0) else None) =
           Some (''2005'', ''As0/0/5'')" by code_simp
  have j: "?cols ! 1 = ''5''" by simp
  from line_id_is_offset_plus_rotary [OF a b b c d e f g h]
  have "show_line_row ''    0/0/5      5 TTY   9600/9600  -    -      -    -    -     0      0    0/0      -'' = Inr (Some (''2005'', ''As0/0/5''))"
    unfolding i .
  with c f g j show ?thesis by simp
qed

end
